theory Spec2Isabelle
  imports Main "HOL-Library.Word" "HOL-Library.Monad_Syntax"
begin

unbundle bit_operations_syntax

section \<open>Bytes and the C library character classes\<close>

text \<open>
  A \<open>hoedown_buffer\<close> view (\<open>data\<close>, \<open>size\<close>) is a list of bytes; \<open>char\<close> is the
  8-bit byte, so that inputs can be written as string literals.  The character classes are
  those of the C locale on values \<open>0..255\<close>.
\<close>

type_synonym bytes = "char list"

definition tolower :: "char \<Rightarrow> char" where
  "tolower c = (let n = (of_char c :: nat) in if 65 \<le> n \<and> n \<le> 90 then char_of (n + 32) else c)"

definition isalnum :: "char \<Rightarrow> bool" where
  "isalnum c = (let n = (of_char c :: nat) in
     (48 \<le> n \<and> n \<le> 57) \<or> (65 \<le> n \<and> n \<le> 90) \<or> (97 \<le> n \<and> n \<le> 122))"

text \<open>\<open>_isspace\<close> of markdown.c: only the space and the newline.\<close>

definition isspace_md :: "char \<Rightarrow> bool" where
  "isspace_md c = (c = CHR '' '' \<or> c = CHR 0x0A)"

section \<open>Link references\<close>

text \<open>
  \<open>struct link_ref\<close>: the 32-bit \<open>id\<close> (an \<open>unsigned int\<close>), and the \<open>link\<close> and
  \<open>title\<close> buffers, null until \<open>is_ref\<close> fills them.  The \<open>next\<close> pointer is the tail
  of the chain the entry heads.
\<close>

record link_ref =
  lr_id :: "32 word"
  lr_link :: "bytes option"
  lr_title :: "bytes option"

definition REF_TABLE_SIZE :: nat where
  "REF_TABLE_SIZE = 8"

text \<open>
  \<open>hash_link_ref\<close>: the loop \<open>hash = tolower(c) + (hash << 6) + (hash << 16) - hash\<close>
  in \<open>unsigned int\<close> arithmetic, over the bytes of the name in order.
\<close>

primrec hash_link_ref_loop :: "32 word \<Rightarrow> bytes \<Rightarrow> 32 word" where
  "hash_link_ref_loop hash [] = hash"
| "hash_link_ref_loop hash (c # cs) =
     hash_link_ref_loop
       (of_nat (of_char (tolower c)) + push_bit 6 hash + push_bit 16 hash - hash) cs"

definition hash_link_ref :: "bytes \<Rightarrow> 32 word" where
  "hash_link_ref link_ref = hash_link_ref_loop 0 link_ref"

text \<open>
  The table \<open>struct link_ref *refs[REF_TABLE_SIZE]\<close> is a list of eight chains, each
  chain listed from its head.  \<open>add_link_ref\<close> allocates a zeroed entry, sets its \<open>id\<close>
  and makes it the new head of the chain \<open>id % REF_TABLE_SIZE\<close>; the entry it returns is
  that head.  (The failure of \<open>calloc\<close> is not modelled.)
\<close>

definition add_link_ref :: "link_ref list list \<Rightarrow> bytes \<Rightarrow> link_ref list list" where
  "add_link_ref references name =
     (let ref = \<lparr>lr_id = hash_link_ref name, lr_link = None, lr_title = None\<rparr>;
          k = unat (lr_id ref) mod REF_TABLE_SIZE
      in references[k := ref # references ! k])"

text \<open>\<open>find_link_ref\<close>: walk the chain of the hash from its head, return the first entry
  whose \<open>id\<close> is the hash, or null.\<close>

fun find_link_ref_chain :: "link_ref list \<Rightarrow> 32 word \<Rightarrow> link_ref option" where
  "find_link_ref_chain [] hash = None"
| "find_link_ref_chain (ref # next) hash =
     (if lr_id ref = hash then Some ref else find_link_ref_chain next hash)"

definition find_link_ref :: "link_ref list list \<Rightarrow> bytes \<Rightarrow> link_ref option" where
  "find_link_ref references name =
     (let hash = hash_link_ref name
      in find_link_ref_chain (references ! (unat hash mod REF_TABLE_SIZE)) hash)"

text \<open>
  The end of \<open>is_ref\<close> (the block under \<open>if (refs)\<close>): the entry returned by
  \<open>add_link_ref\<close> gets a copy of the link bytes and, when the title is not empty
  (\<open>title_end > title_offset\<close>), a copy of the title bytes.
\<close>

definition is_ref_store :: "link_ref list list \<Rightarrow> bytes \<Rightarrow> bytes \<Rightarrow> bytes \<Rightarrow> link_ref list list" where
  "is_ref_store refs name link_bytes title_bytes =
     (let refs1 = add_link_ref refs name;
          k = unat (hash_link_ref name) mod REF_TABLE_SIZE;
          ref = hd (refs1 ! k);
          ref1 = ref\<lparr>lr_link := Some link_bytes\<rparr>;
          ref2 = (if title_bytes \<noteq> [] then ref1\<lparr>lr_title := Some title_bytes\<rparr> else ref1)
      in refs1[k := ref2 # tl (refs1 ! k)])"

text \<open>
  Pass 1 of \<open>hoedown_markdown_render\<close> zeroes the table and then stores the reference
  definitions in document order; \<open>pass1_refs\<close> is the table after the definitions
  \<open>(name, link, title)\<close> of a document, listed in that order.
\<close>

definition refs_empty :: "link_ref list list" where
  "refs_empty = replicate REF_TABLE_SIZE []"

definition pass1_refs :: "(bytes \<times> bytes \<times> bytes) list \<Rightarrow> link_ref list list" where
  "pass1_refs defs = foldl (\<lambda>refs (name, l, t). is_ref_store refs name l t) refs_empty defs"

text \<open>The entry that a definition leaves in the table.\<close>

definition ref_entry :: "bytes \<times> bytes \<times> bytes \<Rightarrow> link_ref" where
  "ref_entry d = (case d of (name, l, t) \<Rightarrow>
     \<lparr>lr_id = hash_link_ref name, lr_link = Some l,
      lr_title = (if t \<noteq> [] then Some t else None)\<rparr>)"

section \<open>Footnote references\<close>

text \<open>
  \<open>struct footnote_ref\<close>.  The entries live in the list \<open>footnotes_found\<close>, in
  definition order; the list \<open>footnotes_used\<close> shares them by pointer, which is here the
  index of the entry in \<open>footnotes_found\<close>.  The \<open>count\<close> of a list is its length.
\<close>

record footnote_ref =
  fr_id :: "32 word"
  is_used :: bool
  num :: nat
  contents :: bytes

fun find_footnote_ref_from :: "nat \<Rightarrow> footnote_ref list \<Rightarrow> 32 word \<Rightarrow> nat option" where
  "find_footnote_ref_from k [] hash = None"
| "find_footnote_ref_from k (ref # next) hash =
     (if fr_id ref = hash then Some k else find_footnote_ref_from (Suc k) next hash)"

definition find_footnote_ref :: "footnote_ref list \<Rightarrow> bytes \<Rightarrow> nat option" where
  "find_footnote_ref list name = find_footnote_ref_from 0 list (hash_link_ref name)"

section \<open>The parser instance\<close>

datatype hoedown_autolink =
  HOEDOWN_AUTOLINK_NONE | HOEDOWN_AUTOLINK_NORMAL | HOEDOWN_AUTOLINK_EMAIL

datatype markdown_char_t =
  MD_CHAR_NONE | MD_CHAR_EMPHASIS | MD_CHAR_CODESPAN | MD_CHAR_LINEBREAK | MD_CHAR_LINK
  | MD_CHAR_LANGLE | MD_CHAR_ESCAPE | MD_CHAR_ENTITITY | MD_CHAR_AUTOLINK_URL
  | MD_CHAR_AUTOLINK_EMAIL | MD_CHAR_AUTOLINK_WWW | MD_CHAR_SUPERSCRIPT | MD_CHAR_QUOTE

text \<open>
  The extension bits are declared in markdown.h; \<open>ext_flags\<close> is kept as the set of the
  bits that are on, and \<open>md->ext_flags & HOEDOWN_EXT_X\<close> is membership.
\<close>

datatype hoedown_extensions =
  HOEDOWN_EXT_NO_INTRA_EMPHASIS | HOEDOWN_EXT_TABLES | HOEDOWN_EXT_FENCED_CODE
  | HOEDOWN_EXT_AUTOLINK | HOEDOWN_EXT_STRIKETHROUGH | HOEDOWN_EXT_UNDERLINE
  | HOEDOWN_EXT_SPACE_HEADERS | HOEDOWN_EXT_SUPERSCRIPT | HOEDOWN_EXT_LAX_SPACING
  | HOEDOWN_EXT_DISABLE_INDENTED_CODE | HOEDOWN_EXT_HIGHLIGHT | HOEDOWN_EXT_FOOTNOTES
  | HOEDOWN_EXT_QUOTE

text \<open>
  The flags of a list and of a list item (\<open>HOEDOWN_LI_END\<close> is the internal flag of
  markdown.c), and those of a table cell; a flag word is the set of its bits, so that
  \<open>HOEDOWN_TABLE_ALIGN_CENTER\<close> is both alignment bits.
\<close>

datatype hoedown_listflags = HOEDOWN_LIST_ORDERED | HOEDOWN_LI_BLOCK | HOEDOWN_LI_END

datatype hoedown_tableflags =
  HOEDOWN_TABLE_ALIGN_L | HOEDOWN_TABLE_ALIGN_R | HOEDOWN_TABLE_HEADER

text \<open>
  A renderer callback receives the output buffer, its arguments and the \<open>opaque\<close>
  pointer; it may write the output buffer and the state behind \<open>opaque\<close> at will, and
  nothing else of the parser.  So a callback is a function from the output bytes, the
  arguments and the opaque state to the new output bytes and opaque state; the span
  callbacks also return an \<open>int\<close>, of which the parser reads only whether it is zero
  (\<open>True\<close> is non-zero).  A callback that is a null pointer is \<open>None\<close>; a buffer argument
  that may be null is an option.  The callbacks \<open>list\<close> and \<open>paragraph\<close> of the source are \<open>list_cb\<close> and
  \<open>paragraph_cb\<close>, as \<open>image\<close> and \<open>footnote_ref\<close> are \<open>image_cb\<close> and \<open>footnote_ref_cb\<close>.
\<close>

type_synonym ('a, 'o) span_cb = "bytes \<Rightarrow> 'a \<Rightarrow> 'o \<Rightarrow> bytes \<times> 'o \<times> bool"
type_synonym ('a, 'o) void_cb = "bytes \<Rightarrow> 'a \<Rightarrow> 'o \<Rightarrow> bytes \<times> 'o"

record 'o hoedown_renderer =
  autolink :: "(bytes \<times> hoedown_autolink, 'o) span_cb option"
  codespan :: "(bytes option, 'o) span_cb option"
  double_emphasis :: "(bytes, 'o) span_cb option"
  emphasis :: "(bytes, 'o) span_cb option"
  underline :: "(bytes, 'o) span_cb option"
  highlight :: "(bytes, 'o) span_cb option"
  quote :: "(bytes option, 'o) span_cb option"
  image_cb :: "(bytes option \<times> bytes option \<times> bytes option, 'o) span_cb option"
  linebreak :: "(unit, 'o) span_cb option"
  link :: "(bytes option \<times> bytes option \<times> bytes option, 'o) span_cb option"
  raw_html_tag :: "(bytes, 'o) span_cb option"
  triple_emphasis :: "(bytes, 'o) span_cb option"
  strikethrough :: "(bytes, 'o) span_cb option"
  superscript :: "(bytes, 'o) span_cb option"
  footnote_ref_cb :: "(nat, 'o) span_cb option"
  entity :: "(bytes, 'o) void_cb option"
  normal_text :: "(bytes, 'o) void_cb option"
  blockcode :: "(bytes \<times> bytes option, 'o) void_cb option"
  blockquote :: "(bytes, 'o) void_cb option"
  blockhtml :: "(bytes, 'o) void_cb option"
  header :: "(bytes \<times> nat, 'o) void_cb option"
  hrule :: "(unit, 'o) void_cb option"
  list_cb :: "(bytes \<times> hoedown_listflags set, 'o) void_cb option"
  listitem :: "(bytes \<times> hoedown_listflags set, 'o) void_cb option"
  paragraph_cb :: "(bytes, 'o) void_cb option"
  table :: "(bytes \<times> bytes, 'o) void_cb option"
  table_row :: "(bytes, 'o) void_cb option"
  table_cell :: "(bytes \<times> hoedown_tableflags set, 'o) void_cb option"
  footnotes :: "(bytes, 'o) void_cb option"
  footnote_def :: "(bytes \<times> nat, 'o) void_cb option"
  doc_header :: "(unit, 'o) void_cb option"
  doc_footer :: "(unit, 'o) void_cb option"

definition BUFFER_BLOCK :: nat where
  "BUFFER_BLOCK = 0"

definition BUFFER_SPAN :: nat where
  "BUFFER_SPAN = 1"

text \<open>
  \<open>struct hoedown_markdown\<close>.  The field \<open>md\<close> of the source (the renderer) is \<open>rndr\<close>
  here, and its \<open>opaque\<close> pointer, the only part of it that changes, stands beside it.
  Of a pool \<open>work_bufs[type]\<close> the state keeps the \<open>size\<close>, a \<open>size_t\<close> of 64 bits: the
  number of buffers in use.  The buffers themselves are values of the functions that
  borrow them.
\<close>

record 'o hoedown_markdown =
  rndr :: "'o hoedown_renderer"
  opaque :: 'o
  refs :: "link_ref list list"
  footnotes_found :: "footnote_ref list"
  footnotes_used :: "nat list"
  active_char :: "char \<Rightarrow> markdown_char_t"
  work_bufs :: "nat \<Rightarrow> 64 word"
  ext_flags :: "hoedown_extensions set"
  max_nesting :: "64 word"
  in_link_body :: bool

text \<open>
  \<open>newbuf\<close> hands out the buffer of the next slot, emptied (or a new empty buffer that
  \<open>hoedown_stack_push\<close> puts in that slot), and advances \<open>size\<close>; the caller starts from
  the empty buffer \<open>[]\<close>.  \<open>popbuf\<close> is \<open>size--\<close> on a \<open>size_t\<close>.
\<close>

definition newbuf :: "'o hoedown_markdown \<Rightarrow> nat \<Rightarrow> 'o hoedown_markdown" where
  "newbuf md type = md\<lparr>work_bufs := (work_bufs md)(type := work_bufs md type + 1)\<rparr>"

definition popbuf :: "'o hoedown_markdown \<Rightarrow> nat \<Rightarrow> 'o hoedown_markdown" where
  "popbuf md type = md\<lparr>work_bufs := (work_bufs md)(type := work_bufs md type - 1)\<rparr>"

text \<open>The test that opens \<open>parse_inline\<close> and \<open>parse_block\<close>, in \<open>size_t\<close> arithmetic.\<close>

definition nesting_exceeded :: "'o hoedown_markdown \<Rightarrow> bool" where
  "nesting_exceeded md = (work_bufs md BUFFER_SPAN + work_bufs md BUFFER_BLOCK > max_nesting md)"

text \<open>Calling a callback: a null function pointer is a crash, \<open>None\<close>.\<close>

definition call_span ::
  "('a, 'o) span_cb option \<Rightarrow> bytes \<Rightarrow> 'a \<Rightarrow> 'o hoedown_markdown
     \<Rightarrow> (bytes \<times> 'o hoedown_markdown \<times> bool) option" where
  "call_span cb ob arg md =
     (case cb of None \<Rightarrow> None
      | Some f \<Rightarrow> (case f ob arg (opaque md) of (ob', opq, r) \<Rightarrow> Some (ob', md\<lparr>opaque := opq\<rparr>, r)))"

definition call_void ::
  "('a, 'o) void_cb \<Rightarrow> bytes \<Rightarrow> 'a \<Rightarrow> 'o hoedown_markdown \<Rightarrow> bytes \<times> 'o hoedown_markdown" where
  "call_void f ob arg md = (case f ob arg (opaque md) of (ob', opq) \<Rightarrow> (ob', md\<lparr>opaque := opq\<rparr>))"

section \<open>Scanning loops\<close>

text \<open>The bytes \<open>data[a..b)\<close>.\<close>

definition slice :: "bytes \<Rightarrow> nat \<Rightarrow> nat \<Rightarrow> bytes" where
  "slice data a b = take (b - a) (drop a data)"

text \<open>\<open>while (i < size && P(data[i])) i++;\<close>, with \<open>sz\<close> for \<open>size\<close>.\<close>

function skip_while :: "(char \<Rightarrow> bool) \<Rightarrow> bytes \<Rightarrow> nat \<Rightarrow> nat \<Rightarrow> nat" where
  "skip_while P data sz i =
     (if i < sz \<and> P (data ! i) then skip_while P data sz (Suc i) else i)"
  by pat_completeness auto
termination
  by (relation "measure (\<lambda>(P, data, sz, i). sz - i)") auto

declare skip_while.simps [simp del]

text \<open>\<open>while (i > lo && P(data[i - 1])) i--;\<close>\<close>

fun back_while :: "(char \<Rightarrow> bool) \<Rightarrow> bytes \<Rightarrow> nat \<Rightarrow> nat \<Rightarrow> nat" where
  "back_while P data lo 0 = 0"
| "back_while P data lo (Suc j) =
     (if Suc j > lo \<and> P (data ! j) then back_while P data lo j else Suc j)"

text \<open>\<open>while (i > lo && P(data[i])) i--;\<close>\<close>

fun back_while_at :: "(char \<Rightarrow> bool) \<Rightarrow> bytes \<Rightarrow> nat \<Rightarrow> nat \<Rightarrow> nat" where
  "back_while_at P data lo 0 = 0"
| "back_while_at P data lo (Suc j) =
     (if Suc j > lo \<and> P (data ! Suc j) then back_while_at P data lo j else Suc j)"

lemma skip_while_ge: "i \<le> skip_while P data sz i"
proof (induction P data sz i rule: skip_while.induct)
  case (1 P data sz i)
  then show ?case
    by (subst skip_while.simps) (auto simp: Suc_leD)
qed

lemma skip_while_le: "i \<le> sz \<Longrightarrow> skip_while P data sz i \<le> sz"
proof (induction P data sz i rule: skip_while.induct)
  case (1 P data sz i)
  then show ?case
    by (subst skip_while.simps) auto
qed

section \<open>Inline parsing\<close>

text \<open>
  \<open>unscape_text\<close>: copy \<open>src\<close> to \<open>ob\<close>, dropping each backslash that has a byte after it
  and keeping that byte.
\<close>

function unscape_text_loop :: "bytes \<Rightarrow> bytes \<Rightarrow> nat \<Rightarrow> bytes" where
  "unscape_text_loop ob src i =
     (if i < length src then
        (let org = i;
             i1 = skip_while (\<lambda>c. c \<noteq> CHR 0x5C) src (length src) i;
             ob1 = (if i1 > org then ob @ slice src org i1 else ob)
         in if i1 + 1 \<ge> length src then ob1
            else unscape_text_loop (ob1 @ [src ! (i1 + 1)]) src (i1 + 2))
      else ob)"
  by pat_completeness auto
termination
proof (relation "measure (\<lambda>(ob, src, i). length src - i)", goal_cases)
  case 1
  show ?case by simp
next
  case (2 ob src i org i1 ob1)
  then show ?case
    using skip_while_ge [of i "\<lambda>c. c \<noteq> CHR 0x5C" src "length src"] by simp
qed

declare unscape_text_loop.simps [simp del]

definition unscape_text :: "bytes \<Rightarrow> bytes \<Rightarrow> bytes" where
  "unscape_text ob src = unscape_text_loop ob src 0"

text \<open>
  A handler of the table \<open>markdown_char_ptrs\<close> takes the output buffer, the parser, and
  the span being parsed with the offset of the active byte in it: \<open>data\<close> of the source
  is \<open>drop offset txt\<close>, its \<open>size\<close> is the length of that, and \<open>data[-1]\<close> is
  \<open>txt ! (offset - 1)\<close>.  It returns the output buffer, the parser and the number of
  bytes it took.  \<open>None\<close> is a run that does not return normally: a null callback was
  called, or the recursion ran out of fuel.

  The handlers that parse their content call \<open>parse_inline\<close>; they take it as the
  argument \<open>rec\<close>, and \<open>parse_inline\<close> below closes the recursion.
\<close>

type_synonym 'o parse_result = "(bytes \<times> 'o hoedown_markdown \<times> nat) option"
type_synonym 'o char_trigger = "bytes \<Rightarrow> 'o hoedown_markdown \<Rightarrow> bytes \<Rightarrow> nat \<Rightarrow> 'o parse_result"
type_synonym 'o inline_parser =
  "bytes \<Rightarrow> 'o hoedown_markdown \<Rightarrow> bytes \<Rightarrow> (bytes \<times> 'o hoedown_markdown) option"

text \<open>The text run of \<open>parse_inline\<close>: through \<open>normal_text\<close>, or copied when it is null.\<close>

definition put_normal_text ::
  "bytes \<Rightarrow> 'o hoedown_markdown \<Rightarrow> bytes \<Rightarrow> bytes \<times> 'o hoedown_markdown" where
  "put_normal_text ob md work =
     (case normal_text (rndr md) of
        Some f \<Rightarrow> call_void f ob work md
      | None \<Rightarrow> (ob @ work, md))"

subsection \<open>Line break, code span, quote, escape, entity\<close>

text \<open>
  \<open>char_linebreak\<close>: a newline after two spaces.  The trailing spaces of the output are
  cut before the callback is called, whatever it returns.
\<close>

definition char_linebreak :: "'o char_trigger" where
  "char_linebreak ob md txt offset =
     (if offset < 2 \<or> txt ! (offset - 1) \<noteq> CHR '' '' \<or> txt ! (offset - 2) \<noteq> CHR '' ''
      then Some (ob, md, 0)
      else
        (let ob1 = take (back_while (\<lambda>c. c = CHR '' '') ob 0 (length ob)) ob
         in case call_span (linebreak (rndr md)) ob1 () md of
              None \<Rightarrow> None
            | Some (ob2, md2, r) \<Rightarrow> Some (ob2, md2, if r then 1 else 0)))"

text \<open>
  The search for the closing delimiter, shared by \<open>char_codespan\<close> (the backtick) and
  \<open>char_quote\<close> (the double quote):
  \<open>for (end = nb; end < size && i < nb; end++) { if (data[end] == d) i++; else i = 0; }\<close>.
  It returns \<open>end\<close> and \<open>i\<close>.
\<close>

function find_delim :: "char \<Rightarrow> bytes \<Rightarrow> nat \<Rightarrow> nat \<Rightarrow> nat \<Rightarrow> nat \<times> nat" where
  "find_delim d data nb endp i =
     (if endp < length data \<and> i < nb
      then find_delim d data nb (Suc endp) (if data ! endp = d then Suc i else 0)
      else (endp, i))"
  by pat_completeness auto
termination
  by (relation "measure (\<lambda>(d, data, nb, endp, i). length data - endp)") auto

declare find_delim.simps [simp del]

text \<open>
  The common body of \<open>char_codespan\<close> and \<open>char_quote\<close>, which differ in the delimiter
  and in the callback: count the opening run, find the closing one, trim the spaces at
  both ends, call the callback with the trimmed bytes (null when nothing is left).
\<close>

definition char_delimited ::
  "char \<Rightarrow> ('o hoedown_renderer \<Rightarrow> (bytes option, 'o) span_cb option) \<Rightarrow> 'o char_trigger" where
  "char_delimited d cb ob md txt offset =
     (let data = drop offset txt; sz = length data;
          nb = skip_while (\<lambda>c. c = d) data sz 0;
          (endp, i) = find_delim d data nb nb 0
      in if i < nb \<and> endp \<ge> sz then Some (ob, md, 0)
         else
           (let f_begin = skip_while (\<lambda>c. c = CHR '' '') data endp nb;
                f_end = back_while (\<lambda>c. c = CHR '' '') data nb (endp - nb);
                work = (if f_begin < f_end then Some (slice data f_begin f_end) else None)
            in case call_span (cb (rndr md)) ob work md of
                 None \<Rightarrow> None
               | Some (ob1, md1, r) \<Rightarrow> Some (ob1, md1, if r then endp else 0)))"

definition char_codespan :: "'o char_trigger" where
  "char_codespan = char_delimited (CHR 0x60) codespan"

definition char_quote :: "'o char_trigger" where
  "char_quote = char_delimited (CHR 0x22) quote"

text \<open>
  \<open>strchr(s, c) != NULL\<close> of the C library: \<open>c\<close> occurs in the string, whose terminating
  null byte counts as part of it.
\<close>

definition strchr_found :: "bytes \<Rightarrow> char \<Rightarrow> bool" where
  "strchr_found s c = (c \<in> set s \<or> c = CHR 0x00)"

definition escape_chars :: bytes where
  "escape_chars = CHR 0x5C # CHR 0x60 # ''*_{}[]()#+-.!:|&<>^~''"

definition char_escape :: "'o char_trigger" where
  "char_escape ob md txt offset =
     (let data = drop offset txt; sz = length data
      in if sz > 1 then
           (if \<not> strchr_found escape_chars (data ! 1) then Some (ob, md, 0)
            else
              (case normal_text (rndr md) of
                 Some f \<Rightarrow> (case call_void f ob [data ! 1] md of (ob1, md1) \<Rightarrow> Some (ob1, md1, 2))
               | None \<Rightarrow> Some (ob @ [data ! 1], md, 2)))
         else if sz = 1 then Some (ob @ [data ! 0], md, 2)
         else Some (ob, md, 2))"

definition char_entity :: "'o char_trigger" where
  "char_entity ob md txt offset =
     (let data = drop offset txt; sz = length data;
          end1 = (if 1 < sz \<and> data ! 1 = CHR ''#'' then 2 else 1);
          end2 = skip_while isalnum data sz end1
      in if end2 < sz \<and> data ! end2 = CHR '';'' then
           (let end3 = end2 + 1
            in case entity (rndr md) of
                 Some f \<Rightarrow> (case call_void f ob (take end3 data) md of (ob1, md1) \<Rightarrow> Some (ob1, md1, end3))
               | None \<Rightarrow> Some (ob @ take end3 data, md, end3))
         else Some (ob, md, 0))"

subsection \<open>Superscript\<close>

text \<open>
  The scan of the parenthesized form:
  \<open>while (sup_len < size && data[sup_len] != ')' && data[sup_len - 1] != '\\') sup_len++;\<close>
\<close>

function sup_paren_scan :: "bytes \<Rightarrow> nat \<Rightarrow> nat" where
  "sup_paren_scan data sup_len =
     (if sup_len < length data \<and> data ! sup_len \<noteq> CHR 0x29 \<and> data ! (sup_len - 1) \<noteq> CHR 0x5C
      then sup_paren_scan data (Suc sup_len) else sup_len)"
  by pat_completeness auto
termination
  by (relation "measure (\<lambda>(data, sup_len). length data - sup_len)") auto

declare sup_paren_scan.simps [simp del]

text \<open>The last part of \<open>char_superscript\<close>, once \<open>sup_start\<close> and \<open>sup_len\<close> are known.\<close>

definition char_superscript_body ::
  "'o inline_parser \<Rightarrow> bytes \<Rightarrow> 'o hoedown_markdown \<Rightarrow> bytes \<Rightarrow> nat \<Rightarrow> nat \<Rightarrow> 'o parse_result" where
  "char_superscript_body rec ob md data sup_start sup_len =
     (if sup_len - sup_start = 0 then Some (ob, md, if sup_start = 2 then 3 else 0)
      else
        (let md1 = newbuf md BUFFER_SPAN
         in case rec [] md1 (slice data sup_start sup_len) of
              None \<Rightarrow> None
            | Some (sup_buf, md2) \<Rightarrow>
                (case call_span (superscript (rndr md2)) ob sup_buf md2 of
                   None \<Rightarrow> None
                 | Some (ob3, md3, r) \<Rightarrow>
                     Some (ob3, popbuf md3 BUFFER_SPAN,
                           if sup_start = 2 then sup_len + 1 else sup_len))))"

definition char_superscript :: "'o inline_parser \<Rightarrow> 'o char_trigger" where
  "char_superscript rec ob md txt offset =
     (let data = drop offset txt; sz = length data
      in if superscript (rndr md) = None then Some (ob, md, 0)
         else if sz < 2 then Some (ob, md, 0)
         else if data ! 1 = CHR 0x28 then
           (let sup_len = sup_paren_scan data 2
            in if sup_len = sz then Some (ob, md, 0)
               else char_superscript_body rec ob md data 2 sup_len)
         else
           char_superscript_body rec ob md data 1 (skip_while (\<lambda>c. \<not> isspace_md c) data sz 1))"

subsection \<open>Emphasis\<close>

text \<open>
  A loop whose body is long is written as its body, a function that either returns from
  the enclosing C function (\<open>Return\<close>) or goes round the loop again with new values of
  the loop variables (\<open>Continue\<close>), and a recursive function that iterates the body.
\<close>

datatype ('r, 's) loop_step = Return 'r | Continue 's

text \<open>
  The loops of \<open>find_emph_char\<close> that remember in \<open>tmp_i\<close> the first position of \<open>c\<close>
  they pass (\<open>tmp_i = 0\<close> is "none yet"):
  \<open>while (i < size && data[i] != stop) { if (!tmp_i && data[i] == c) tmp_i = i; i++; }\<close>
  and the search for the closing backticks.
\<close>

function scan_to :: "char \<Rightarrow> char \<Rightarrow> bytes \<Rightarrow> nat \<Rightarrow> nat \<Rightarrow> nat \<times> nat" where
  "scan_to stop c data i tmp_i =
     (if i < length data \<and> data ! i \<noteq> stop
      then scan_to stop c data (Suc i) (if tmp_i = 0 \<and> data ! i = c then i else tmp_i)
      else (i, tmp_i))"
  by pat_completeness auto
termination
  by (relation "measure (\<lambda>(stop, c, data, i, tmp_i). length data - i)") auto

declare scan_to.simps [simp del]

function bt_scan :: "char \<Rightarrow> bytes \<Rightarrow> nat \<Rightarrow> nat \<Rightarrow> nat \<Rightarrow> nat \<Rightarrow> nat \<times> nat" where
  "bt_scan c data span_nb i bt tmp_i =
     (if i < length data \<and> bt < span_nb
      then bt_scan c data span_nb (Suc i) (if data ! i = CHR 0x60 then Suc bt else 0)
             (if tmp_i = 0 \<and> data ! i = c then i else tmp_i)
      else (i, tmp_i))"
  by pat_completeness auto
termination
  by (relation "measure (\<lambda>(c, data, span_nb, i, bt, tmp_i). length data - i)") auto

declare bt_scan.simps [simp del]

lemma skip_while_step: "i < sz \<Longrightarrow> P (data ! i) \<Longrightarrow> Suc i \<le> skip_while P data sz i"
  by (subst skip_while.simps) (simp add: skip_while_ge)

lemma scan_to_ge: "i \<le> fst (scan_to stop c data i t)"
proof (induction stop c data i t rule: scan_to.induct)
  case (1 stop c data i t)
  show ?case
  proof (cases "i < length data \<and> data ! i \<noteq> stop")
    case True
    then have "scan_to stop c data i t
        = scan_to stop c data (Suc i) (if t = 0 \<and> data ! i = c then i else t)"
      by (subst scan_to.simps) simp
    moreover have "Suc i \<le> fst (scan_to stop c data (Suc i) (if t = 0 \<and> data ! i = c then i else t))"
      using 1 True by simp
    ultimately show ?thesis
      by simp
  next
    case False
    then have "scan_to stop c data i t = (i, t)"
      by (subst scan_to.simps) auto
    then show ?thesis
      by simp
  qed
qed

lemma bt_scan_ge: "i \<le> fst (bt_scan c data n i bt t)"
proof (induction c data n i bt t rule: bt_scan.induct)
  case (1 c data n i bt t)
  show ?case
  proof (cases "i < length data \<and> bt < n")
    case True
    then have "bt_scan c data n i bt t
        = bt_scan c data n (Suc i) (if data ! i = CHR 0x60 then Suc bt else 0)
             (if t = 0 \<and> data ! i = c then i else t)"
      by (subst bt_scan.simps) simp
    moreover have "Suc i \<le> fst (bt_scan c data n (Suc i) (if data ! i = CHR 0x60 then Suc bt else 0)
             (if t = 0 \<and> data ! i = c then i else t))"
      using 1 True by simp
    ultimately show ?thesis
      by simp
  next
    case False
    then have "bt_scan c data n i bt t = (i, t)"
      by (subst bt_scan.simps) auto
    then show ?thesis
      by simp
  qed
qed

text \<open>
  The body of the loop of \<open>find_emph_char\<close>, at the position \<open>i\<close>.  The first scan stops
  at \<open>c\<close> or at an opening bracket, so after the tests for \<open>c\<close> and for the backslash the
  byte is the bracket: the branch of the backtick is never taken, and the last \<open>else\<close>
  (where the source would go round its loop without moving) is never reached.
\<close>

definition find_emph_char_step :: "bytes \<Rightarrow> char \<Rightarrow> nat \<Rightarrow> (nat, nat) loop_step" where
  "find_emph_char_step data c i =
     (let i1 = skip_while (\<lambda>x. x \<noteq> c \<and> x \<noteq> CHR ''['') data (length data) i
      in if i1 = length data then Return 0
         else if data ! i1 = c then Return i1
         else if i1 \<noteq> 0 \<and> data ! (i1 - 1) = CHR 0x5C then Continue (i1 + 1)
         else if data ! i1 = CHR 0x60 then
           (let i2 = skip_while (\<lambda>x. x = CHR 0x60) data (length data) i1
            in if i2 \<ge> length data then Return 0
               else (case bt_scan c data (i2 - i1) i2 0 0 of (i3, tmp_i) \<Rightarrow>
                       if i3 \<ge> length data then Return tmp_i else Continue i3))
         else if data ! i1 = CHR ''['' then
           (case scan_to (CHR '']'') c data (i1 + 1) 0 of (i2, tmp1) \<Rightarrow>
              (let i3 = skip_while (\<lambda>x. x = CHR '' '' \<or> x = CHR 0x0A) data (length data) (i2 + 1)
               in if i3 \<ge> length data then Return tmp1
                  else if data ! i3 = CHR ''['' \<or> data ! i3 = CHR 0x28 then
                    (case scan_to (if data ! i3 = CHR ''['' then CHR '']'' else CHR 0x29)
                            c data (i3 + 1) tmp1 of (i4, tmp2) \<Rightarrow>
                       if i4 \<ge> length data then Return tmp2 else Continue (i4 + 1))
                  else if tmp1 \<noteq> 0 then Return tmp1
                  else Continue i3))
         else Return 0)"

lemma find_emph_char_step_Continue:
  assumes "find_emph_char_step data c i = Continue j" and "i < length data"
  shows "i < j"
proof -
  let ?i1 = "skip_while (\<lambda>x. x \<noteq> c \<and> x \<noteq> CHR ''['') data (length data) i"
  have a: "i \<le> ?i1"
    by (rule skip_while_ge)
  have b: "?i1 \<le> length data"
    using assms(2) by (simp add: skip_while_le)
  show ?thesis
    using assms a b
    apply (simp add: find_emph_char_step_def Let_def split: if_splits prod.splits)
    subgoal for i3 t
      using skip_while_step [of ?i1 "length data" "\<lambda>x. x = CHR 0x60" data]
        bt_scan_ge [of "skip_while (\<lambda>x. x = CHR 0x60) data (length data) ?i1" c data
          "skip_while (\<lambda>x. x = CHR 0x60) data (length data) ?i1 - ?i1" 0 0]
      by simp
    subgoal for i2 t1 i4 t2
      using scan_to_ge [of "Suc ?i1" "CHR '']''" c data 0]
        skip_while_ge [of "Suc i2" "\<lambda>x. x = CHR '' '' \<or> x = CHR 0x0A" data "length data"]
        scan_to_ge [of "Suc (skip_while (\<lambda>x. x = CHR '' '' \<or> x = CHR 0x0A) data (length data) (Suc i2))"
          "CHR '']''" c data t1]
      by simp
    subgoal for i2 t1 i4 t2
      using scan_to_ge [of "Suc ?i1" "CHR '']''" c data 0]
        skip_while_ge [of "Suc i2" "\<lambda>x. x = CHR '' '' \<or> x = CHR 0x0A" data "length data"]
        scan_to_ge [of "Suc (skip_while (\<lambda>x. x = CHR '' '' \<or> x = CHR 0x0A) data (length data) (Suc i2))"
          "CHR 0x29" c data t1]
      by simp
    subgoal for i2 t1
      using scan_to_ge [of "Suc ?i1" "CHR '']''" c data 0]
        skip_while_ge [of "Suc i2" "\<lambda>x. x = CHR '' '' \<or> x = CHR 0x0A" data "length data"]
      by simp
    done
qed

function find_emph_char_loop :: "bytes \<Rightarrow> char \<Rightarrow> nat \<Rightarrow> nat" where
  "find_emph_char_loop data c i =
     (if i < length data then
        (case find_emph_char_step data c i of
           Return r \<Rightarrow> r
         | Continue j \<Rightarrow> find_emph_char_loop data c j)
      else 0)"
  by pat_completeness auto
termination
  by (relation "measure (\<lambda>(data, c, i). length data - i)")
     (auto dest: find_emph_char_step_Continue)

declare find_emph_char_loop.simps [simp del]

definition find_emph_char :: "bytes \<Rightarrow> char \<Rightarrow> nat" where
  "find_emph_char data c = find_emph_char_loop data c 1"

text \<open>
  What \<open>parse_emph1\<close>, \<open>parse_emph2\<close> and \<open>parse_emph3\<close> do once the closing delimiter
  is found at \<open>i\<close>: borrow a span buffer, parse the content \<open>data[0..i)\<close> into it, hand it to
  the callback, give the buffer back, and return \<open>i + n\<close> when the callback rendered, 0
  otherwise.  The callbacks are called without a test for null.
\<close>

definition render_emph ::
  "'o inline_parser \<Rightarrow> ('o hoedown_renderer \<Rightarrow> (bytes, 'o) span_cb option) \<Rightarrow> bytes
     \<Rightarrow> 'o hoedown_markdown \<Rightarrow> bytes \<Rightarrow> nat \<Rightarrow> nat \<Rightarrow> 'o parse_result" where
  "render_emph rec cb ob md data i n =
     (let md1 = newbuf md BUFFER_SPAN
      in case rec [] md1 (take i data) of
           None \<Rightarrow> None
         | Some (work, md2) \<Rightarrow>
             (case call_span (cb (rndr md2)) ob work md2 of
                None \<Rightarrow> None
              | Some (ob3, md3, r) \<Rightarrow> Some (ob3, popbuf md3 BUFFER_SPAN, if r then i + n else 0)))"

definition parse_emph1_step ::
  "'o inline_parser \<Rightarrow> bytes \<Rightarrow> 'o hoedown_markdown \<Rightarrow> bytes \<Rightarrow> char \<Rightarrow> nat
     \<Rightarrow> ('o parse_result, nat) loop_step" where
  "parse_emph1_step rec ob md data c i =
     (let len = find_emph_char (drop i data) c
      in if len = 0 then Return (Some (ob, md, 0))
         else
           (let i1 = i + len
            in if i1 \<ge> length data then Return (Some (ob, md, 0))
               else if data ! i1 = c \<and> \<not> isspace_md (data ! (i1 - 1)) then
                 (if HOEDOWN_EXT_NO_INTRA_EMPHASIS \<in> ext_flags md
                       \<and> i1 + 1 < length data \<and> isalnum (data ! (i1 + 1))
                  then Continue i1
                  else Return (render_emph rec
                         (if HOEDOWN_EXT_UNDERLINE \<in> ext_flags md \<and> c = CHR ''_''
                          then underline else emphasis) ob md data i1 1))
               else Continue i1))"

lemma parse_emph1_step_Continue: "parse_emph1_step rec ob md data c i = Continue j \<Longrightarrow> i < j"
  by (auto simp: parse_emph1_step_def Let_def split: if_splits)

function parse_emph1_loop ::
  "'o inline_parser \<Rightarrow> bytes \<Rightarrow> 'o hoedown_markdown \<Rightarrow> bytes \<Rightarrow> char \<Rightarrow> nat \<Rightarrow> 'o parse_result" where
  "parse_emph1_loop rec ob md data c i =
     (if i < length data then
        (case parse_emph1_step rec ob md data c i of
           Return r \<Rightarrow> r
         | Continue j \<Rightarrow> parse_emph1_loop rec ob md data c j)
      else Some (ob, md, 0))"
  by pat_completeness auto
termination
  by (relation "measure (\<lambda>(rec, ob, md, data, c, i). length data - i)")
     (auto dest: parse_emph1_step_Continue)

declare parse_emph1_loop.simps [simp del]

definition parse_emph1 ::
  "'o inline_parser \<Rightarrow> bytes \<Rightarrow> 'o hoedown_markdown \<Rightarrow> bytes \<Rightarrow> char \<Rightarrow> 'o parse_result" where
  "parse_emph1 rec ob md data c =
     parse_emph1_loop rec ob md data c
       (if length data > 1 \<and> data ! 0 = c \<and> data ! 1 = c then 1 else 0)"

definition parse_emph2_step ::
  "'o inline_parser \<Rightarrow> bytes \<Rightarrow> 'o hoedown_markdown \<Rightarrow> bytes \<Rightarrow> char \<Rightarrow> nat
     \<Rightarrow> ('o parse_result, nat) loop_step" where
  "parse_emph2_step rec ob md data c i =
     (let len = find_emph_char (drop i data) c
      in if len = 0 then Return (Some (ob, md, 0))
         else
           (let i1 = i + len
            in if i1 + 1 < length data \<and> data ! i1 = c \<and> data ! (i1 + 1) = c \<and> i1 \<noteq> 0
                    \<and> \<not> isspace_md (data ! (i1 - 1))
               then Return (render_emph rec
                      (if c = CHR ''~'' then strikethrough
                       else if c = CHR ''='' then highlight else double_emphasis) ob md data i1 2)
               else Continue (i1 + 1)))"

lemma parse_emph2_step_Continue: "parse_emph2_step rec ob md data c i = Continue j \<Longrightarrow> i < j"
  by (auto simp: parse_emph2_step_def Let_def split: if_splits)

function parse_emph2_loop ::
  "'o inline_parser \<Rightarrow> bytes \<Rightarrow> 'o hoedown_markdown \<Rightarrow> bytes \<Rightarrow> char \<Rightarrow> nat \<Rightarrow> 'o parse_result" where
  "parse_emph2_loop rec ob md data c i =
     (if i < length data then
        (case parse_emph2_step rec ob md data c i of
           Return r \<Rightarrow> r
         | Continue j \<Rightarrow> parse_emph2_loop rec ob md data c j)
      else Some (ob, md, 0))"
  by pat_completeness auto
termination
  by (relation "measure (\<lambda>(rec, ob, md, data, c, i). length data - i)")
     (auto dest: parse_emph2_step_Continue)

declare parse_emph2_loop.simps [simp del]

definition parse_emph2 ::
  "'o inline_parser \<Rightarrow> bytes \<Rightarrow> 'o hoedown_markdown \<Rightarrow> bytes \<Rightarrow> char \<Rightarrow> 'o parse_result" where
  "parse_emph2 rec ob md data c = parse_emph2_loop rec ob md data c 0"

text \<open>
  \<open>parse_emph3\<close> steps back over the delimiters it came from (\<open>data - 2\<close>, \<open>data - 1\<close>),
  so it takes the span \<open>txt\<close> and the position \<open>p\<close> of its \<open>data\<close> in it.
\<close>

definition sub_ret :: "'o parse_result \<Rightarrow> nat \<Rightarrow> 'o parse_result" where
  "sub_ret res n =
     (case res of None \<Rightarrow> None
      | Some (ob, md, len) \<Rightarrow> Some (ob, md, if len = 0 then 0 else len - n))"

definition parse_emph3_step ::
  "'o inline_parser \<Rightarrow> bytes \<Rightarrow> 'o hoedown_markdown \<Rightarrow> bytes \<Rightarrow> nat \<Rightarrow> char \<Rightarrow> nat
     \<Rightarrow> ('o parse_result, nat) loop_step" where
  "parse_emph3_step rec ob md txt p c i =
     (let data = drop p txt; sz = length data;
          len = find_emph_char (drop i data) c
      in if len = 0 then Return (Some (ob, md, 0))
         else
           (let i1 = i + len
            in if data ! i1 \<noteq> c \<or> isspace_md (data ! (i1 - 1)) then Continue i1
               else if i1 + 2 < sz \<and> data ! (i1 + 1) = c \<and> data ! (i1 + 2) = c
                       \<and> triple_emphasis (rndr md) \<noteq> None
               then Return (render_emph rec triple_emphasis ob md data i1 3)
               else if i1 + 1 < sz \<and> data ! (i1 + 1) = c
               then Return (sub_ret (parse_emph1 rec ob md (drop (p - 2) txt) c) 2)
               else Return (sub_ret (parse_emph2 rec ob md (drop (p - 1) txt) c) 1)))"

lemma parse_emph3_step_Continue: "parse_emph3_step rec ob md txt p c i = Continue j \<Longrightarrow> i < j"
  by (auto simp: parse_emph3_step_def Let_def split: if_splits)

function parse_emph3_loop ::
  "'o inline_parser \<Rightarrow> bytes \<Rightarrow> 'o hoedown_markdown \<Rightarrow> bytes \<Rightarrow> nat \<Rightarrow> char \<Rightarrow> nat \<Rightarrow> 'o parse_result" where
  "parse_emph3_loop rec ob md txt p c i =
     (if i < length txt - p then
        (case parse_emph3_step rec ob md txt p c i of
           Return r \<Rightarrow> r
         | Continue j \<Rightarrow> parse_emph3_loop rec ob md txt p c j)
      else Some (ob, md, 0))"
  by pat_completeness auto
termination
  by (relation "measure (\<lambda>(rec, ob, md, txt, p, c, i). length txt - p - i)")
     (auto dest: parse_emph3_step_Continue)

declare parse_emph3_loop.simps [simp del]

definition parse_emph3 ::
  "'o inline_parser \<Rightarrow> bytes \<Rightarrow> 'o hoedown_markdown \<Rightarrow> bytes \<Rightarrow> nat \<Rightarrow> char \<Rightarrow> 'o parse_result" where
  "parse_emph3 rec ob md txt p c = parse_emph3_loop rec ob md txt p c 0"

text \<open>What \<open>char_emphasis\<close> returns from the result \<open>ret\<close> of a \<open>parse_emph\<close>: 0, or \<open>ret + n\<close>.\<close>

definition add_ret :: "'o parse_result \<Rightarrow> nat \<Rightarrow> 'o parse_result" where
  "add_ret res n =
     (case res of None \<Rightarrow> None
      | Some (ob, md, ret) \<Rightarrow> Some (ob, md, if ret = 0 then 0 else ret + n))"

definition char_emphasis :: "'o inline_parser \<Rightarrow> 'o char_trigger" where
  "char_emphasis rec ob md txt offset =
     (let data = drop offset txt; sz = length data; c = data ! 0
      in if HOEDOWN_EXT_NO_INTRA_EMPHASIS \<in> ext_flags md \<and> offset > 0
              \<and> \<not> isspace_md (txt ! (offset - 1)) \<and> txt ! (offset - 1) \<noteq> CHR ''>''
              \<and> txt ! (offset - 1) \<noteq> CHR 0x28
         then Some (ob, md, 0)
         else if sz > 2 \<and> data ! 1 \<noteq> c then
           (if c = CHR ''~'' \<or> c = CHR ''='' \<or> isspace_md (data ! 1) then Some (ob, md, 0)
            else add_ret (parse_emph1 rec ob md (drop (offset + 1) txt) c) 1)
         else if sz > 3 \<and> data ! 1 = c \<and> data ! 2 \<noteq> c then
           (if isspace_md (data ! 2) then Some (ob, md, 0)
            else add_ret (parse_emph2 rec ob md (drop (offset + 2) txt) c) 2)
         else if sz > 4 \<and> data ! 1 = c \<and> data ! 2 = c \<and> data ! 3 \<noteq> c then
           (if c = CHR ''~'' \<or> c = CHR ''='' \<or> isspace_md (data ! 3) then Some (ob, md, 0)
            else add_ret (parse_emph3 rec ob md txt (offset + 3) c) 3)
         else Some (ob, md, 0))"

subsection \<open>Tags and autolinks\<close>

text \<open>\<open>is_mail_autolink\<close>; \<open>i\<close> is the index of the head of the list in \<open>data\<close>.\<close>

fun is_mail_autolink_from :: "nat \<Rightarrow> nat \<Rightarrow> bytes \<Rightarrow> nat" where
  "is_mail_autolink_from i nb [] = 0"
| "is_mail_autolink_from i nb (x # xs) =
     (if isalnum x then is_mail_autolink_from (Suc i) nb xs
      else if x = CHR ''@'' then is_mail_autolink_from (Suc i) (Suc nb) xs
      else if x = CHR ''-'' \<or> x = CHR ''.'' \<or> x = CHR ''_'' then is_mail_autolink_from (Suc i) nb xs
      else if x = CHR ''>'' then (if nb = 1 then i + 1 else 0)
      else 0)"

definition is_mail_autolink :: "bytes \<Rightarrow> nat" where
  "is_mail_autolink data = is_mail_autolink_from 0 0 data"

text \<open>
  The loop of \<open>tag_length\<close> that looks for the end of an autolink:
  \<open>while (i < size) { if (data[i] == '\\') i += 2; else if (stop byte) break; else i++; }\<close>
\<close>

function tag_autolink_end :: "bytes \<Rightarrow> nat \<Rightarrow> nat" where
  "tag_autolink_end data i =
     (if i < length data then
        (if data ! i = CHR 0x5C then tag_autolink_end data (i + 2)
         else if data ! i = CHR ''>'' \<or> data ! i = CHR 0x27 \<or> data ! i = CHR 0x22
                 \<or> data ! i = CHR '' '' \<or> data ! i = CHR 0x0A then i
         else tag_autolink_end data (i + 1))
      else i)"
  by pat_completeness auto
termination
  by (relation "measure (\<lambda>(data, i). length data - i)") auto

declare tag_autolink_end.simps [simp del]

text \<open>
  After its first loop \<open>tag_length\<close> reads \<open>data[i]\<close> where \<open>i\<close> may be \<open>size\<close>, one byte
  past the view.  Whatever that byte is, the function then returns 0 and leaves the
  autolink type at \<open>NONE\<close>; \<open>byte_at\<close> reads a null byte there.
\<close>

definition byte_at :: "bytes \<Rightarrow> nat \<Rightarrow> char" where
  "byte_at data i = (if i < length data then data ! i else CHR 0x00)"

definition tag_close :: "bytes \<Rightarrow> nat \<Rightarrow> nat" where
  "tag_close data i =
     (let i1 = skip_while (\<lambda>x. x \<noteq> CHR ''>'') data (length data) i
      in if i1 \<ge> length data then 0 else i1 + 1)"

text \<open>
  \<open>tag_length\<close> returns the length and the autolink type.  Its one caller passes a
  type initialised to \<open>NONE\<close>, which the early returns leave as it is.
\<close>

definition tag_length :: "bytes \<Rightarrow> nat \<times> hoedown_autolink" where
  "tag_length data =
     (let sz = length data
      in if sz < 3 then (0, HOEDOWN_AUTOLINK_NONE)
         else if data ! 0 \<noteq> CHR ''<'' then (0, HOEDOWN_AUTOLINK_NONE)
         else
           (let i = (if data ! 1 = CHR ''/'' then 2 else 1)
            in if \<not> isalnum (data ! i) then (0, HOEDOWN_AUTOLINK_NONE)
               else
                 (let i1 = skip_while (\<lambda>x. isalnum x \<or> x = CHR ''.'' \<or> x = CHR ''+'' \<or> x = CHR ''-'')
                             data sz i;
                      j = (if i1 > 1 \<and> byte_at data i1 = CHR ''@''
                           then is_mail_autolink (drop i1 data) else 0)
                  in if j \<noteq> 0 then (i1 + j, HOEDOWN_AUTOLINK_EMAIL)
                     else
                       (let colon = (i1 > 2 \<and> byte_at data i1 = CHR '':'');
                            i2 = (if colon then i1 + 1 else i1)
                        in if i2 \<ge> sz then (tag_close data i2, HOEDOWN_AUTOLINK_NONE)
                           else if colon then
                             (let i3 = tag_autolink_end data i2
                              in if i3 \<ge> sz then (0, HOEDOWN_AUTOLINK_NORMAL)
                                 else if i3 > i2 \<and> data ! i3 = CHR ''>''
                                 then (i3 + 1, HOEDOWN_AUTOLINK_NORMAL)
                                 else (tag_close data i3, HOEDOWN_AUTOLINK_NONE))
                           else (tag_close data i2, HOEDOWN_AUTOLINK_NONE)))))"

definition char_langle_tag :: "'o char_trigger" where
  "char_langle_tag ob md txt offset =
     (let data = drop offset txt
      in case tag_length data of (endp, altype) \<Rightarrow>
           if endp > 2 then
             (if autolink (rndr md) \<noteq> None \<and> altype \<noteq> HOEDOWN_AUTOLINK_NONE then
                (let md1 = newbuf md BUFFER_SPAN;
                     u_link = unscape_text [] (slice data 1 (endp - 1))
                 in case call_span (autolink (rndr md1)) ob (u_link, altype) md1 of
                      None \<Rightarrow> None
                    | Some (ob2, md2, ret) \<Rightarrow>
                        Some (ob2, popbuf md2 BUFFER_SPAN, if ret then endp else 0))
              else if raw_html_tag (rndr md) \<noteq> None then
                (case call_span (raw_html_tag (rndr md)) ob (take endp data) md of
                   None \<Rightarrow> None
                 | Some (ob2, md2, ret) \<Rightarrow> Some (ob2, md2, if ret then endp else 0))
              else Some (ob, md, 0))
           else Some (ob, md, 0))"

text \<open>
  The scanners \<open>hoedown_autolink__www\<close>, \<open>hoedown_autolink__email\<close> and
  \<open>hoedown_autolink__url\<close> are in autolink.c, outside this file; they are parameters.
  A scanner sees the span and the offset of the active byte, and returns the length it
  takes (0 for no link), the number \<open>rewind\<close> of bytes before the offset that belong to
  the link, and the bytes of the link, which it appends to the empty buffer it is given.
\<close>

type_synonym autolink_scanner = "bytes \<Rightarrow> nat \<Rightarrow> nat \<times> nat \<times> bytes"

record autolink_scanners =
  hoedown_autolink_www :: autolink_scanner
  hoedown_autolink_email :: autolink_scanner
  hoedown_autolink_url :: autolink_scanner

text \<open>
  \<open>ob->size -= rewind\<close> drops the last \<open>rewind\<close> bytes of the output.  When \<open>rewind\<close> is
  more than the output holds, the size wraps around and the buffer is no longer a
  buffer: the run is followed no further (\<open>None\<close>).
\<close>

definition rewind_ob :: "bytes \<Rightarrow> nat \<Rightarrow> bytes option" where
  "rewind_ob ob rewind = (if rewind \<le> length ob then Some (take (length ob - rewind) ob) else None)"

definition char_autolink_www :: "autolink_scanner \<Rightarrow> 'o char_trigger" where
  "char_autolink_www scan ob md txt offset =
     (if link (rndr md) = None \<or> in_link_body md then Some (ob, md, 0)
      else
        (let md1 = newbuf md BUFFER_SPAN
         in case scan txt offset of (link_len, rewind, link_buf) \<Rightarrow>
              if link_len > 0 then
                (let md2 = newbuf md1 BUFFER_SPAN;
                     link_url = ''http://'' @ link_buf
                 in case rewind_ob ob rewind of
                      None \<Rightarrow> None
                    | Some ob1 \<Rightarrow>
                        (case normal_text (rndr md2) of
                           Some f \<Rightarrow>
                             (case call_void f [] link_buf (newbuf md2 BUFFER_SPAN) of
                                (link_text, md4) \<Rightarrow>
                                  (case call_span (link (rndr md4)) ob1
                                          (Some link_url, None, Some link_text) md4 of
                                     None \<Rightarrow> None
                                   | Some (ob2, md5, r) \<Rightarrow>
                                       Some (ob2,
                                         popbuf (popbuf (popbuf md5 BUFFER_SPAN) BUFFER_SPAN) BUFFER_SPAN,
                                         link_len)))
                         | None \<Rightarrow>
                             (case call_span (link (rndr md2)) ob1
                                     (Some link_url, None, Some link_buf) md2 of
                                None \<Rightarrow> None
                              | Some (ob2, md3, r) \<Rightarrow>
                                  Some (ob2, popbuf (popbuf md3 BUFFER_SPAN) BUFFER_SPAN, link_len))))
              else Some (ob, popbuf md1 BUFFER_SPAN, link_len)))"

text \<open>\<open>char_autolink_email\<close> and \<open>char_autolink_url\<close> differ in the scanner and the type.\<close>

definition char_autolink_plain :: "autolink_scanner \<Rightarrow> hoedown_autolink \<Rightarrow> 'o char_trigger" where
  "char_autolink_plain scan altype ob md txt offset =
     (if autolink (rndr md) = None \<or> in_link_body md then Some (ob, md, 0)
      else
        (let md1 = newbuf md BUFFER_SPAN
         in case scan txt offset of (link_len, rewind, link_buf) \<Rightarrow>
              if link_len > 0 then
                (case rewind_ob ob rewind of
                   None \<Rightarrow> None
                 | Some ob1 \<Rightarrow>
                     (case call_span (autolink (rndr md1)) ob1 (link_buf, altype) md1 of
                        None \<Rightarrow> None
                      | Some (ob2, md2, r) \<Rightarrow> Some (ob2, popbuf md2 BUFFER_SPAN, link_len)))
              else Some (ob, popbuf md1 BUFFER_SPAN, link_len)))"

definition char_autolink_email :: "autolink_scanners \<Rightarrow> 'o char_trigger" where
  "char_autolink_email sc = char_autolink_plain (hoedown_autolink_email sc) HOEDOWN_AUTOLINK_EMAIL"

definition char_autolink_url :: "autolink_scanners \<Rightarrow> 'o char_trigger" where
  "char_autolink_url sc = char_autolink_plain (hoedown_autolink_url sc) HOEDOWN_AUTOLINK_NORMAL"

subsection \<open>Links and images\<close>

text \<open>
  The search for the closing bracket of the link text:
  \<open>for (level = 1; i < size; i++) { ... }\<close>.  It returns the \<open>i\<close> at which the loop stops
  and \<open>text_has_nl\<close>.
\<close>

function link_text_end :: "bytes \<Rightarrow> nat \<Rightarrow> int \<Rightarrow> bool \<Rightarrow> nat \<times> bool" where
  "link_text_end data i level text_has_nl =
     (if i < length data then
        (if data ! i = CHR 0x0A then link_text_end data (i + 1) level True
         else if data ! (i - 1) = CHR 0x5C then link_text_end data (i + 1) level text_has_nl
         else if data ! i = CHR ''['' then link_text_end data (i + 1) (level + 1) text_has_nl
         else if data ! i = CHR '']'' then
           (if level - 1 \<le> 0 then (i, text_has_nl)
            else link_text_end data (i + 1) (level - 1) text_has_nl)
         else link_text_end data (i + 1) level text_has_nl)
      else (i, text_has_nl))"
  by pat_completeness auto
termination
  by (relation "measure (\<lambda>(data, i, level, text_has_nl). length data - i)") auto

declare link_text_end.simps [simp del]

text \<open>The end of the destination of an inline link; \<open>nb_p\<close> counts the open parentheses.\<close>

function link_dest_end :: "bytes \<Rightarrow> nat \<Rightarrow> nat \<Rightarrow> nat" where
  "link_dest_end data i nb_p =
     (if i < length data then
        (if data ! i = CHR 0x5C then link_dest_end data (i + 2) nb_p
         else if data ! i = CHR 0x28 \<and> i \<noteq> 0 then link_dest_end data (i + 1) (nb_p + 1)
         else if data ! i = CHR 0x29 then
           (if nb_p = 0 then i else link_dest_end data (i + 1) (nb_p - 1))
         else if i \<ge> 1 \<and> isspace_md (data ! (i - 1))
                 \<and> (data ! i = CHR 0x27 \<or> data ! i = CHR 0x22) then i
         else link_dest_end data (i + 1) nb_p)
      else i)"
  by pat_completeness auto
termination
  by (relation "measure (\<lambda>(data, i, nb_p). length data - i)") auto

declare link_dest_end.simps [simp del]

text \<open>The end of the title of an inline link.\<close>

function link_title_end :: "bytes \<Rightarrow> char \<Rightarrow> nat \<Rightarrow> bool \<Rightarrow> nat" where
  "link_title_end data qtype i in_title =
     (if i < length data then
        (if data ! i = CHR 0x5C then link_title_end data qtype (i + 2) in_title
         else if data ! i = qtype then link_title_end data qtype (i + 1) False
         else if data ! i = CHR 0x29 \<and> \<not> in_title then i
         else link_title_end data qtype (i + 1) in_title)
      else i)"
  by pat_completeness auto
termination
  by (relation "measure (\<lambda>(data, qtype, i, in_title). length data - i)") auto

declare link_title_end.simps [simp del]

text \<open>
  The identifier of a link text that holds a newline: each newline becomes one space,
  or nothing after a space.
  \<open>for (j = 1; j < txt_e; j++) { if (data[j] != '\n') putc(b, data[j]); else if (data[j - 1] != ' ') putc(b, ' '); }\<close>
\<close>

function nl_to_space :: "bytes \<Rightarrow> nat \<Rightarrow> nat \<Rightarrow> bytes \<Rightarrow> bytes" where
  "nl_to_space data txt_e j b =
     (if j < txt_e then
        nl_to_space data txt_e (j + 1)
          (if data ! j \<noteq> CHR 0x0A then b @ [data ! j]
           else if data ! (j - 1) \<noteq> CHR '' '' then b @ [CHR '' '']
           else b)
      else b)"
  by pat_completeness auto
termination
  by (relation "measure (\<lambda>(data, txt_e, j, b). txt_e - j)") auto

declare nl_to_space.simps [simp del]

text \<open>
  The label \<open>cleanup\<close>: the span pool goes back to the size it had on entry, through the
  cast \<open>(int)org_work_size\<close> (an \<open>int\<close> of 32 bits, converted back to \<open>size_t\<close>), and the
  function returns \<open>i\<close> when \<open>ret\<close> is not zero, 0 otherwise.
\<close>

definition char_link_cleanup ::
  "64 word \<Rightarrow> bytes \<Rightarrow> 'o hoedown_markdown \<Rightarrow> bool \<Rightarrow> nat \<Rightarrow> 'o parse_result" where
  "char_link_cleanup org_work_size ob md ret i =
     Some (ob,
           md\<lparr>work_bufs := (work_bufs md)(BUFFER_SPAN := scast (ucast org_work_size :: 32 word))\<rparr>,
           if ret then i else 0)"

text \<open>
  The identifier made of the link text, for \<open>[text][]\<close> and \<open>[text]\<close>; with a newline in
  the text it is built in a span buffer.
\<close>

definition link_text_id ::
  "'o hoedown_markdown \<Rightarrow> bytes \<Rightarrow> nat \<Rightarrow> bool \<Rightarrow> bytes \<times> 'o hoedown_markdown" where
  "link_text_id md data txt_e text_has_nl =
     (if text_has_nl then (nl_to_space data txt_e 1 [], newbuf md BUFFER_SPAN)
      else (slice data 1 txt_e, md))"

text \<open>
  The part of \<open>char_link\<close> from "building content" on: \<open>link_buf\<close> and \<open>title_buf\<close> are the
  \<open>link\<close> and \<open>title\<close> pointers, null or not.  The display text of a link is parsed with
  \<open>in_link_body\<close> set to 1, and the flag is set to 0 after it.
\<close>

definition char_link_render ::
  "'o inline_parser \<Rightarrow> 64 word \<Rightarrow> bytes \<Rightarrow> 'o hoedown_markdown \<Rightarrow> bytes \<Rightarrow> bool \<Rightarrow> nat \<Rightarrow> nat
     \<Rightarrow> bytes option \<Rightarrow> bytes option \<Rightarrow> 'o parse_result" where
  "char_link_render rec org_work_size ob md data is_img txt_e i link_buf title_buf =
     (case (if txt_e > 1 then
              (let md1 = newbuf md BUFFER_SPAN
               in if is_img then Some (Some (slice data 1 txt_e), md1)
                  else
                    (case rec [] (md1\<lparr>in_link_body := True\<rparr>) (slice data 1 txt_e) of
                       None \<Rightarrow> None
                     | Some (content, md2) \<Rightarrow> Some (Some content, md2\<lparr>in_link_body := False\<rparr>)))
            else Some (None, md)) of
        None \<Rightarrow> None
      | Some (content, md3) \<Rightarrow>
          (let (u_link, md4) =
                 (case link_buf of
                    Some l \<Rightarrow> (Some (unscape_text [] l), newbuf md3 BUFFER_SPAN)
                  | None \<Rightarrow> (None, md3))
           in case (if is_img
                    then call_span (image_cb (rndr md4))
                           (if ob \<noteq> [] \<and> last ob = CHR ''!'' then butlast ob else ob)
                           (u_link, title_buf, content) md4
                    else call_span (link (rndr md4)) ob (u_link, title_buf, content) md4) of
                None \<Rightarrow> None
              | Some (ob5, md5, ret) \<Rightarrow> char_link_cleanup org_work_size ob5 md5 ret i))"

text \<open>The footnote reference \<open>[^id]\<close>.\<close>

definition char_link_footnote ::
  "64 word \<Rightarrow> bytes \<Rightarrow> 'o hoedown_markdown \<Rightarrow> bytes \<Rightarrow> nat \<Rightarrow> nat \<Rightarrow> 'o parse_result" where
  "char_link_footnote org_work_size ob md data txt_e i =
     (if txt_e < 3 then char_link_cleanup org_work_size ob md False i
      else
        (case find_footnote_ref (footnotes_found md) (slice data 2 txt_e) of
           None \<Rightarrow> char_link_cleanup org_work_size ob md False i
         | Some k \<Rightarrow>
             (let fr = footnotes_found md ! k;
                  md1 = (if \<not> is_used fr
                         then md\<lparr>footnotes_used := footnotes_used md @ [k],
                                 footnotes_found := (footnotes_found md)
                                   [k := fr\<lparr>is_used := True, num := length (footnotes_used md) + 1\<rparr>]\<rparr>
                         else md)
              in if footnote_ref_cb (rndr md1) \<noteq> None then
                   (case call_span (footnote_ref_cb (rndr md1)) ob (num (footnotes_found md1 ! k)) md1 of
                      None \<Rightarrow> None
                    | Some (ob2, md2, ret) \<Rightarrow> char_link_cleanup org_work_size ob2 md2 ret i)
                 else char_link_cleanup org_work_size ob md1 False i)))"

text \<open>The inline link \<open>[text](link "title")\<close>; \<open>i\<close> is at the opening parenthesis.\<close>

definition char_link_inline ::
  "'o inline_parser \<Rightarrow> 64 word \<Rightarrow> bytes \<Rightarrow> 'o hoedown_markdown \<Rightarrow> bytes \<Rightarrow> bool \<Rightarrow> nat \<Rightarrow> nat
     \<Rightarrow> 'o parse_result" where
  "char_link_inline rec org_work_size ob md data is_img txt_e i =
     (let sz = length data;
          link_b = skip_while isspace_md data sz (i + 1);
          i1 = link_dest_end data link_b 0
      in if i1 \<ge> sz then char_link_cleanup org_work_size ob md False i1
         else
           (let has_title = (data ! i1 = CHR 0x27 \<or> data ! i1 = CHR 0x22);
                title_b0 = i1 + 1;
                i2 = (if has_title then link_title_end data (data ! i1) title_b0 True else i1)
            in if has_title \<and> i2 \<ge> sz then char_link_cleanup org_work_size ob md False i2
               else
                 (let title_e0 = back_while_at isspace_md data title_b0 (i2 - 1);
                      title_ok = (has_title
                                   \<and> (data ! title_e0 = CHR 0x27 \<or> data ! title_e0 = CHR 0x22));
                      title_b = (if title_ok then title_b0 else 0);
                      title_e = (if title_ok then title_e0 else 0);
                      link_e0 = (if has_title \<and> \<not> title_ok then i2 else i1);
                      link_e1 = back_while isspace_md data link_b link_e0;
                      link_b1 = (if data ! link_b = CHR ''<'' then link_b + 1 else link_b);
                      link_e = (if data ! (link_e1 - 1) = CHR ''>'' then link_e1 - 1 else link_e1);
                      md1 = (if link_e > link_b1 then newbuf md BUFFER_SPAN else md);
                      md2 = (if title_e > title_b then newbuf md1 BUFFER_SPAN else md1)
                  in char_link_render rec org_work_size ob md2 data is_img txt_e (i2 + 1)
                       (if link_e > link_b1 then Some (slice data link_b1 link_e) else None)
                       (if title_e > title_b then Some (slice data title_b title_e) else None))))"

text \<open>
  The reference link \<open>[text][id]\<close> (\<open>i\<close> is at the second opening bracket) and the
  shortcut \<open>[text]\<close>.  The \<open>link\<close> and \<open>title\<close> are those of the entry found.
\<close>

definition char_link_reference ::
  "'o inline_parser \<Rightarrow> 64 word \<Rightarrow> bytes \<Rightarrow> 'o hoedown_markdown \<Rightarrow> bytes \<Rightarrow> bool \<Rightarrow> nat \<Rightarrow> bool
     \<Rightarrow> nat \<Rightarrow> 'o parse_result" where
  "char_link_reference rec org_work_size ob md data is_img txt_e text_has_nl i =
     (let sz = length data;
          link_b = i + 1;
          i1 = skip_while (\<lambda>x. x \<noteq> CHR '']'') data sz link_b
      in if i1 \<ge> sz then char_link_cleanup org_work_size ob md False i1
         else
           (let link_e = i1;
                (id_buf, md1) = (if link_b = link_e then link_text_id md data txt_e text_has_nl
                                 else (slice data link_b link_e, md))
            in case find_link_ref (refs md1) id_buf of
                 None \<Rightarrow> char_link_cleanup org_work_size ob md1 False i1
               | Some lr \<Rightarrow>
                   char_link_render rec org_work_size ob md1 data is_img txt_e (i1 + 1)
                     (lr_link lr) (lr_title lr)))"

definition char_link_shortcut ::
  "'o inline_parser \<Rightarrow> 64 word \<Rightarrow> bytes \<Rightarrow> 'o hoedown_markdown \<Rightarrow> bytes \<Rightarrow> bool \<Rightarrow> nat \<Rightarrow> bool
     \<Rightarrow> nat \<Rightarrow> 'o parse_result" where
  "char_link_shortcut rec org_work_size ob md data is_img txt_e text_has_nl i =
     (case link_text_id md data txt_e text_has_nl of (id_buf, md1) \<Rightarrow>
        (case find_link_ref (refs md1) id_buf of
           None \<Rightarrow> char_link_cleanup org_work_size ob md1 False i
         | Some lr \<Rightarrow>
             char_link_render rec org_work_size ob md1 data is_img txt_e (txt_e + 1)
               (lr_link lr) (lr_title lr)))"

definition char_link :: "'o inline_parser \<Rightarrow> 'o char_trigger" where
  "char_link rec ob md txt offset =
     (let data = drop offset txt; sz = length data;
          is_img = (offset \<noteq> 0 \<and> txt ! (offset - 1) = CHR ''!'');
          org_work_size = work_bufs md BUFFER_SPAN
      in if (is_img \<and> image_cb (rndr md) = None) \<or> (\<not> is_img \<and> link (rndr md) = None)
         then char_link_cleanup org_work_size ob md False 1
         else
           (case link_text_end data 1 1 False of (txt_e, text_has_nl) \<Rightarrow>
              if txt_e \<ge> sz then char_link_cleanup org_work_size ob md False txt_e
              else if HOEDOWN_EXT_FOOTNOTES \<in> ext_flags md \<and> data ! 1 = CHR ''^''
              then char_link_footnote org_work_size ob md data txt_e (txt_e + 1)
              else
                (let i = skip_while isspace_md data sz (txt_e + 1)
                 in if i < sz \<and> data ! i = CHR 0x28
                    then char_link_inline rec org_work_size ob md data is_img txt_e i
                    else if i < sz \<and> data ! i = CHR ''[''
                    then char_link_reference rec org_work_size ob md data is_img txt_e text_has_nl i
                    else char_link_shortcut rec org_work_size ob md data is_img txt_e text_has_nl i)))"

subsection \<open>The inline scanner\<close>

text \<open>
  The table \<open>markdown_char_ptrs\<close>.  Its entry 0 is the null pointer, which
  \<open>parse_inline\<close> never calls: the scan stops only at a byte whose action is not 0.
\<close>

definition markdown_char_ptrs ::
  "autolink_scanners \<Rightarrow> 'o inline_parser \<Rightarrow> markdown_char_t \<Rightarrow> 'o char_trigger" where
  "markdown_char_ptrs sc rec action =
     (case action of
        MD_CHAR_NONE \<Rightarrow> (\<lambda>ob md txt offset. None)
      | MD_CHAR_EMPHASIS \<Rightarrow> char_emphasis rec
      | MD_CHAR_CODESPAN \<Rightarrow> char_codespan
      | MD_CHAR_LINEBREAK \<Rightarrow> char_linebreak
      | MD_CHAR_LINK \<Rightarrow> char_link rec
      | MD_CHAR_LANGLE \<Rightarrow> char_langle_tag
      | MD_CHAR_ESCAPE \<Rightarrow> char_escape
      | MD_CHAR_ENTITITY \<Rightarrow> char_entity
      | MD_CHAR_AUTOLINK_URL \<Rightarrow> char_autolink_url sc
      | MD_CHAR_AUTOLINK_EMAIL \<Rightarrow> char_autolink_email sc
      | MD_CHAR_AUTOLINK_WWW \<Rightarrow> char_autolink_www (hoedown_autolink_www sc)
      | MD_CHAR_SUPERSCRIPT \<Rightarrow> char_superscript rec
      | MD_CHAR_QUOTE \<Rightarrow> char_quote)"

text \<open>
  The body of the loop of \<open>parse_inline\<close>, with the loop variables \<open>i\<close> and \<open>end\<close>
  (\<open>endp\<close>): copy the inactive bytes from \<open>i\<close> up to the next active byte through
  \<open>normal_text\<close>, stop at the end of the span, otherwise call the handler of the active
  byte.  When the handler returns 0 the loop goes on with \<open>end = i + 1\<close> and \<open>i\<close> at the
  active byte, which so opens the next run of text.
\<close>

definition parse_inline_step ::
  "(markdown_char_t \<Rightarrow> 'o char_trigger) \<Rightarrow> bytes \<Rightarrow> 'o hoedown_markdown \<Rightarrow> bytes \<Rightarrow> nat \<Rightarrow> nat
     \<Rightarrow> ((bytes \<times> 'o hoedown_markdown) option, bytes \<times> 'o hoedown_markdown \<times> nat \<times> nat) loop_step" where
  "parse_inline_step ptrs ob md data i endp =
     (let end1 = skip_while (\<lambda>c. active_char md c = MD_CHAR_NONE) data (length data) endp
      in case put_normal_text ob md (slice data i end1) of (ob1, md1) \<Rightarrow>
           if end1 \<ge> length data then Return (Some (ob1, md1))
           else
             (case ptrs (active_char md (data ! end1)) ob1 md1 data end1 of
                None \<Rightarrow> Return None
              | Some (ob2, md2, r) \<Rightarrow>
                  if r = 0 then Continue (ob2, md2, end1, end1 + 1)
                  else Continue (ob2, md2, end1 + r, end1 + r)))"

lemma parse_inline_step_Continue:
  assumes "parse_inline_step ptrs ob md data i endp = Continue (ob', md', i', endp')"
  shows "endp < endp' \<and> endp < length data"
proof -
  let ?end1 = "skip_while (\<lambda>c. active_char md c = MD_CHAR_NONE) data (length data) endp"
  have "endp \<le> ?end1"
    by (rule skip_while_ge)
  then show ?thesis
    using assms
    by (auto simp: parse_inline_step_def Let_def split: prod.splits if_splits option.splits)
qed

function parse_inline_loop ::
  "(markdown_char_t \<Rightarrow> 'o char_trigger) \<Rightarrow> bytes \<Rightarrow> 'o hoedown_markdown \<Rightarrow> bytes \<Rightarrow> nat \<Rightarrow> nat
     \<Rightarrow> (bytes \<times> 'o hoedown_markdown) option" where
  "parse_inline_loop ptrs ob md data i endp =
     (if i < length data then
        (case parse_inline_step ptrs ob md data i endp of
           Return r \<Rightarrow> r
         | Continue (ob', md', i', endp') \<Rightarrow> parse_inline_loop ptrs ob' md' data i' endp')
      else Some (ob, md))"
  by pat_completeness auto
termination
  by (relation "measure (\<lambda>(ptrs, ob, md, data, i, endp). length data - endp)")
     (auto dest: parse_inline_step_Continue)

declare parse_inline_loop.simps [simp del]

text \<open>
  \<open>parse_inline\<close>.  The recursion of the source goes through the handlers; here
  \<open>parse_inline_body\<close> is the function with its recursive calls as the argument \<open>rec\<close>,
  and \<open>parse_inline\<close> closes the recursion on a fuel, the number of nested calls allowed:
  with no fuel left the run is \<open>None\<close>.
\<close>

definition parse_inline_body :: "autolink_scanners \<Rightarrow> 'o inline_parser \<Rightarrow> 'o inline_parser" where
  "parse_inline_body sc rec ob md data =
     (if nesting_exceeded md then Some (ob, md)
      else parse_inline_loop (markdown_char_ptrs sc rec) ob md data 0 0)"

primrec parse_inline :: "autolink_scanners \<Rightarrow> nat \<Rightarrow> 'o inline_parser" where
  "parse_inline sc 0 = (\<lambda>ob md data. None)"
| "parse_inline sc (Suc fuel) = parse_inline_body sc (parse_inline sc fuel)"

subsection \<open>A new parser\<close>

text \<open>
  \<open>hoedown_markdown_new\<close>: the table of active bytes from the callbacks present and the
  extensions, empty pools, \<open>in_link_body = 0\<close>.  The reference table and the footnote
  lists, which \<open>hoedown_markdown_render\<close> resets, start empty.  The function opens with
  \<open>assert(max_nesting > 0 && renderer)\<close>: with \<open>max_nesting = 0\<close> the call does not return,
  which is \<open>None\<close>; the renderer is a value here and is never null.
\<close>

definition new_active_char ::
  "hoedown_extensions set \<Rightarrow> 'o hoedown_renderer \<Rightarrow> char \<Rightarrow> markdown_char_t" where
  "new_active_char extensions renderer =
     (let t0 = (\<lambda>c. MD_CHAR_NONE);
          t1 = (if emphasis renderer \<noteq> None \<or> double_emphasis renderer \<noteq> None
                   \<or> triple_emphasis renderer \<noteq> None
                then (let a = t0(CHR ''*'' := MD_CHAR_EMPHASIS, CHR ''_'' := MD_CHAR_EMPHASIS);
                          b = (if HOEDOWN_EXT_STRIKETHROUGH \<in> extensions
                               then a(CHR ''~'' := MD_CHAR_EMPHASIS) else a)
                      in if HOEDOWN_EXT_HIGHLIGHT \<in> extensions
                         then b(CHR ''='' := MD_CHAR_EMPHASIS) else b)
                else t0);
          t2 = (if codespan renderer \<noteq> None then t1(CHR 0x60 := MD_CHAR_CODESPAN) else t1);
          t3 = (if linebreak renderer \<noteq> None then t2(CHR 0x0A := MD_CHAR_LINEBREAK) else t2);
          t4 = (if image_cb renderer \<noteq> None \<or> link renderer \<noteq> None
                then t3(CHR ''['' := MD_CHAR_LINK) else t3);
          t5 = t4(CHR ''<'' := MD_CHAR_LANGLE, CHR 0x5C := MD_CHAR_ESCAPE, CHR ''&'' := MD_CHAR_ENTITITY);
          t6 = (if HOEDOWN_EXT_AUTOLINK \<in> extensions
                then t5(CHR '':'' := MD_CHAR_AUTOLINK_URL, CHR ''@'' := MD_CHAR_AUTOLINK_EMAIL,
                        CHR ''w'' := MD_CHAR_AUTOLINK_WWW)
                else t5);
          t7 = (if HOEDOWN_EXT_SUPERSCRIPT \<in> extensions
                then t6(CHR ''^'' := MD_CHAR_SUPERSCRIPT) else t6)
      in if HOEDOWN_EXT_QUOTE \<in> extensions then t7(CHR 0x22 := MD_CHAR_QUOTE) else t7)"

definition hoedown_markdown_new ::
  "hoedown_extensions set \<Rightarrow> 64 word \<Rightarrow> 'o hoedown_renderer \<Rightarrow> 'o
     \<Rightarrow> 'o hoedown_markdown option" where
  "hoedown_markdown_new extensions max_nest renderer opq =
     (if max_nest > 0 then
        Some \<lparr>rndr = renderer, opaque = opq, refs = refs_empty, footnotes_found = [],
              footnotes_used = [], active_char = new_active_char extensions renderer,
              work_bufs = (\<lambda>type. 0), ext_flags = extensions, max_nesting = max_nest,
              in_link_body = False\<rparr>
      else None)"

section \<open>Block parsing\<close>

subsection \<open>Tests on a line\<close>

text \<open>
  The block functions take a span \<open>data\<close>, \<open>size\<close>; here \<open>data\<close> is the list of the bytes of
  the span and \<open>size\<close> its length, so that \<open>data + i, size - i\<close> is \<open>drop i data\<close> and
  \<open>data + a, b - a\<close> is \<open>slice data a b\<close>.

  \<open>is_empty\<close>: the length of the line (with its newline) when it is empty, 0 otherwise.
\<close>

function is_empty_loop :: "bytes \<Rightarrow> nat \<Rightarrow> nat" where
  "is_empty_loop data i =
     (if i < length data \<and> data ! i \<noteq> CHR 0x0A then
        (if data ! i \<noteq> CHR '' '' then 0 else is_empty_loop data (i + 1))
      else i + 1)"
  by pat_completeness auto
termination
  by (relation "measure (\<lambda>(data, i). length data - i)") auto

declare is_empty_loop.simps [simp del]

definition is_empty :: "bytes \<Rightarrow> nat" where
  "is_empty data = is_empty_loop data 0"

text \<open>
  \<open>if (data[0] == ' ') { i++; if (data[1] == ' ') { i++; if (data[2] == ' ') { i++; } } }\<close>
  of \<open>is_hrule\<close> and \<open>prefix_codefence\<close>, which test \<open>size < 3\<close> before it.
\<close>

definition indent3 :: "bytes \<Rightarrow> nat" where
  "indent3 data =
     (if data ! 0 = CHR '' '' then
        (if data ! 1 = CHR '' '' then (if data ! 2 = CHR '' '' then 3 else 2) else 1)
      else 0)"

function is_hrule_loop :: "bytes \<Rightarrow> char \<Rightarrow> nat \<Rightarrow> nat \<Rightarrow> bool" where
  "is_hrule_loop data c i n =
     (if i < length data \<and> data ! i \<noteq> CHR 0x0A then
        (if data ! i = c then is_hrule_loop data c (i + 1) (n + 1)
         else if data ! i \<noteq> CHR '' '' then False
         else is_hrule_loop data c (i + 1) n)
      else n \<ge> 3)"
  by pat_completeness auto
termination
  by (relation "measure (\<lambda>(data, c, i, n). length data - i)") auto

declare is_hrule_loop.simps [simp del]

definition is_hrule :: "bytes \<Rightarrow> bool" where
  "is_hrule data =
     (if length data < 3 then False
      else
        (let i = indent3 data
         in if i + 2 \<ge> length data
               \<or> (data ! i \<noteq> CHR ''*'' \<and> data ! i \<noteq> CHR ''-'' \<and> data ! i \<noteq> CHR ''_'')
            then False
            else is_hrule_loop data (data ! i) i 0))"

text \<open>\<open>prefix_codefence\<close>: the width of the code fence that begins the line, 0 when none.\<close>

definition prefix_codefence :: "bytes \<Rightarrow> nat" where
  "prefix_codefence data =
     (if length data < 3 then 0
      else
        (let i = indent3 data
         in if i + 2 \<ge> length data \<or> \<not> (data ! i = CHR ''~'' \<or> data ! i = CHR 0x60) then 0
            else
              (let i1 = skip_while (\<lambda>x. x = data ! i) data (length data) i;
                   n = i1 - i
               in if n < 3 then 0 else i1)))"

text \<open>
  \<open>is_codefence\<close>: the size of the fence line and the \<open>syntax\<close> found on it.  The callers
  read \<open>syntax\<close> only when the size is not 0, so a line that is no fence gives the empty
  \<open>syntax\<close> they start from.
\<close>

definition is_codefence :: "bytes \<Rightarrow> nat \<times> bytes" where
  "is_codefence data =
     (let sz = length data; i0 = prefix_codefence data
      in if i0 = 0 then (0, [])
         else
           (let i1 = skip_while (\<lambda>c. c = CHR '' '') data sz i0
            in case (if i1 < sz \<and> data ! i1 = CHR ''{'' then
                       (let i2 = skip_while (\<lambda>c. c \<noteq> CHR ''}'' \<and> c \<noteq> CHR 0x0A) data sz (i1 + 1)
                        in if i2 = sz \<or> data ! i2 \<noteq> CHR ''}'' then None
                           else
                             (let syn_start = skip_while isspace_md data i2 (i1 + 1);
                                  syn_end = back_while isspace_md data syn_start i2
                              in Some (i2 + 1, slice data syn_start syn_end)))
                     else
                       (let i2 = skip_while (\<lambda>c. \<not> isspace_md c) data sz i1
                        in Some (i2, slice data i1 i2))) of
                 None \<Rightarrow> (0, [])
               | Some (i3, syn) \<Rightarrow>
                   (let i4 = skip_while (\<lambda>c. c \<noteq> CHR 0x0A \<and> isspace_md c) data sz i3
                    in if i4 < sz \<and> data ! i4 \<noteq> CHR 0x0A then (0, [])
                       else (i4 + 1, syn))))"

text \<open>\<open>is_atxheader\<close>, called on spans that are not empty.\<close>

definition is_atxheader :: "'o hoedown_markdown \<Rightarrow> bytes \<Rightarrow> bool" where
  "is_atxheader md data =
     (if data ! 0 \<noteq> CHR ''#'' then False
      else if HOEDOWN_EXT_SPACE_HEADERS \<in> ext_flags md then
        (let level = skip_while (\<lambda>c. c = CHR ''#'') data (min (length data) 6) 0
         in \<not> (level < length data \<and> data ! level \<noteq> CHR '' ''))
      else True)"

text \<open>\<open>is_headerline\<close>: 1 for an underline of \<open>=\<close>, 2 for one of \<open>-\<close>, 0 otherwise.\<close>

definition is_headerline :: "bytes \<Rightarrow> nat" where
  "is_headerline data =
     (let sz = length data
      in if data ! 0 = CHR ''='' then
           (let i = skip_while (\<lambda>c. c = CHR '' '') data sz (skip_while (\<lambda>c. c = CHR ''='') data sz 1)
            in if i \<ge> sz \<or> data ! i = CHR 0x0A then 1 else 0)
         else if data ! 0 = CHR ''-'' then
           (let i = skip_while (\<lambda>c. c = CHR '' '') data sz (skip_while (\<lambda>c. c = CHR ''-'') data sz 1)
            in if i \<ge> sz \<or> data ! i = CHR 0x0A then 2 else 0)
         else 0)"

definition is_next_headerline :: "bytes \<Rightarrow> nat" where
  "is_next_headerline data =
     (let i = skip_while (\<lambda>c. c \<noteq> CHR 0x0A) data (length data) 0
      in if i + 1 \<ge> length data then 0 else is_headerline (drop (i + 1) data))"

text \<open>\<open>if (i < size && data[i] == ' ') i++;\<close>, three times at the head of the prefix tests.\<close>

definition skip_space :: "bytes \<Rightarrow> nat \<Rightarrow> nat" where
  "skip_space data i = (if i < length data \<and> data ! i = CHR '' '' then i + 1 else i)"

definition prefix_quote :: "bytes \<Rightarrow> nat" where
  "prefix_quote data =
     (let i = skip_space data (skip_space data (skip_space data 0))
      in if i < length data \<and> data ! i = CHR ''>'' then
           (if i + 1 < length data \<and> data ! (i + 1) = CHR '' '' then i + 2 else i + 1)
         else 0)"

definition prefix_code :: "bytes \<Rightarrow> nat" where
  "prefix_code data =
     (if length data > 3 \<and> data ! 0 = CHR '' '' \<and> data ! 1 = CHR '' ''
         \<and> data ! 2 = CHR '' '' \<and> data ! 3 = CHR '' '' then 4
      else 0)"

definition is_digit :: "char \<Rightarrow> bool" where
  "is_digit c = (let n = (of_char c :: nat) in 48 \<le> n \<and> n \<le> 57)"

definition prefix_oli :: "bytes \<Rightarrow> nat" where
  "prefix_oli data =
     (let sz = length data;
          i = skip_space data (skip_space data (skip_space data 0))
      in if i \<ge> sz \<or> \<not> is_digit (data ! i) then 0
         else
           (let i1 = skip_while is_digit data sz i
            in if i1 + 1 \<ge> sz \<or> data ! i1 \<noteq> CHR ''.'' \<or> data ! (i1 + 1) \<noteq> CHR '' '' then 0
               else if is_next_headerline (drop i1 data) \<noteq> 0 then 0
               else i1 + 2))"

definition prefix_uli :: "bytes \<Rightarrow> nat" where
  "prefix_uli data =
     (let sz = length data;
          i = skip_space data (skip_space data (skip_space data 0))
      in if i + 1 \<ge> sz
            \<or> (data ! i \<noteq> CHR ''*'' \<and> data ! i \<noteq> CHR ''+'' \<and> data ! i \<noteq> CHR ''-'')
            \<or> data ! (i + 1) \<noteq> CHR '' '' then 0
         else if is_next_headerline (drop i data) \<noteq> 0 then 0
         else i + 2)"

text \<open>
  The end of a line: \<open>while (end < size && data[end - 1] != '\n') end++;\<close> from the value
  \<open>e\<close> of \<open>end\<close>, which is \<open>beg + 1\<close> in
  \<open>for (end = beg + 1; end < size && data[end - 1] != '\n'; end++);\<close>.
\<close>

function next_line :: "bytes \<Rightarrow> nat \<Rightarrow> nat" where
  "next_line data e =
     (if e < length data \<and> data ! (e - 1) \<noteq> CHR 0x0A then next_line data (e + 1) else e)"
  by pat_completeness auto
termination
  by (relation "measure (\<lambda>(data, e). length data - e)") auto

declare next_line.simps [simp del]

lemma next_line_ge: "e \<le> next_line data e"
proof (induction data e rule: next_line.induct)
  case (1 data e)
  show ?case
  proof (cases "e < length data \<and> data ! (e - 1) \<noteq> CHR 0x0A")
    case True
    then have "next_line data e = next_line data (e + 1)"
      by (subst next_line.simps) simp
    then show ?thesis
      using 1 True by simp
  next
    case False
    then show ?thesis
      by (subst next_line.simps) auto
  qed
qed

lemma next_line_le: "e \<le> length data \<Longrightarrow> next_line data e \<le> length data"
proof (induction data e rule: next_line.induct)
  case (1 data e)
  show ?case
  proof (cases "e < length data \<and> data ! (e - 1) \<noteq> CHR 0x0A")
    case True
    then have "next_line data e = next_line data (e + 1)"
      by (subst next_line.simps) simp
    then show ?thesis
      using 1 True by simp
  next
    case False
    then show ?thesis
      using 1(2) by (subst next_line.simps) auto
  qed
qed


lemma next_line_decr:
  "beg < length data \<Longrightarrow> length data - next_line data (Suc beg) < length data - beg"
  using next_line_ge [of "Suc beg" data] by simp

subsection \<open>HTML blocks\<close>

text \<open>
  \<open>if (cb) cb(ob, ..., md->md.opaque);\<close> for a block callback: a null callback is skipped.
\<close>

definition call_opt ::
  "('a, 'o) void_cb option \<Rightarrow> bytes \<Rightarrow> 'a \<Rightarrow> 'o hoedown_markdown \<Rightarrow> bytes \<times> 'o hoedown_markdown" where
  "call_opt cb ob arg md = (case cb of None \<Rightarrow> (ob, md) | Some f \<Rightarrow> call_void f ob arg md)"

text \<open>
  \<open>htmlblock_end_tag\<close>: the closing tag \<open></tag>\<close> at the head of \<open>data\<close>, followed by a
  blank line; \<open>strncasecmp\<close> compares the \<open>tag_len\<close> bytes after \<open></\<close> with the tag,
  without regard to case.
\<close>

definition htmlblock_end_tag :: "bytes \<Rightarrow> bytes \<Rightarrow> nat" where
  "htmlblock_end_tag tag data =
     (let tag_len = length tag; sz = length data
      in if tag_len + 3 \<ge> sz
            \<or> map tolower (slice data 2 (2 + tag_len)) \<noteq> map tolower tag
            \<or> data ! (tag_len + 2) \<noteq> CHR ''>'' then 0
         else
           (let i = tag_len + 3;
                w = (if i < sz then is_empty (drop i data) else 0)
            in if i < sz \<and> w = 0 then 0
               else
                 (let i1 = i + w;
                      w1 = (if i1 < sz then is_empty (drop i1 data) else 0)
                  in i1 + w1)))"

text \<open>
  The inner loop of \<open>htmlblock_end\<close>, up to the next \<open></\<close>, counting the newlines:
  \<open>while (i < size && !(data[i - 1] == '<' && data[i] == '/')) { if (data[i] == '\n') block_lines++; i++; }\<close>
\<close>

function html_scan :: "bytes \<Rightarrow> nat \<Rightarrow> nat \<Rightarrow> nat \<times> nat" where
  "html_scan data i block_lines =
     (if i < length data \<and> \<not> (data ! (i - 1) = CHR ''<'' \<and> data ! i = CHR ''/'') then
        html_scan data (i + 1) (if data ! i = CHR 0x0A then block_lines + 1 else block_lines)
      else (i, block_lines))"
  by pat_completeness auto
termination
  by (relation "measure (\<lambda>(data, i, block_lines). length data - i)") auto

declare html_scan.simps [simp del]

lemma html_scan_ge: "i \<le> fst (html_scan data i block_lines)"
proof (induction data i block_lines rule: html_scan.induct)
  case (1 data i block_lines)
  show ?case
  proof (cases "i < length data \<and> \<not> (data ! (i - 1) = CHR ''<'' \<and> data ! i = CHR ''/'')")
    case True
    then have "html_scan data i block_lines =
        html_scan data (i + 1) (if data ! i = CHR 0x0A then block_lines + 1 else block_lines)"
      by (subst html_scan.simps) simp
    then show ?thesis
      using 1 True by simp
  next
    case False
    then show ?thesis
      by (subst html_scan.simps) auto
  qed
qed

lemma html_scan_decr:
  "i < length data \<Longrightarrow> length data - fst (html_scan data (Suc i) block_lines) < length data - i"
  using html_scan_ge [of "Suc i" data block_lines] by simp

function htmlblock_end_loop :: "bytes \<Rightarrow> bytes \<Rightarrow> bool \<Rightarrow> nat \<Rightarrow> nat \<Rightarrow> nat" where
  "htmlblock_end_loop curtag data start_of_line i block_lines =
     (if i < length data then
        (case html_scan data (i + 1) block_lines of (i1, bl1) \<Rightarrow>
           if start_of_line \<and> bl1 > 0 \<and> data ! (i1 - 2) \<noteq> CHR 0x0A
           then htmlblock_end_loop curtag data start_of_line i1 bl1
           else if i1 + 2 + length curtag \<ge> length data then 0
           else
             (let end_tag = htmlblock_end_tag curtag (drop (i1 - 1) data)
              in if end_tag \<noteq> 0 then i1 + end_tag - 1
                 else htmlblock_end_loop curtag data start_of_line i1 bl1))
      else 0)"
  by pat_completeness auto
termination
  by (relation "measure (\<lambda>(curtag, data, start_of_line, i, block_lines). length data - i)")
     (auto simp: case_prod_beta html_scan_decr)

declare htmlblock_end_loop.simps [simp del]

definition htmlblock_end :: "bytes \<Rightarrow> bytes \<Rightarrow> bool \<Rightarrow> nat" where
  "htmlblock_end curtag data start_of_line = htmlblock_end_loop curtag data start_of_line 1 0"

text \<open>
  The end of an HTML comment:
  \<open>while (i < size && !(data[i - 2] == '-' && data[i - 1] == '-' && data[i] == '>')) i++;\<close>
\<close>

function html_comment_end :: "bytes \<Rightarrow> nat \<Rightarrow> nat" where
  "html_comment_end data i =
     (if i < length data
         \<and> \<not> (data ! (i - 2) = CHR ''-'' \<and> data ! (i - 1) = CHR ''-'' \<and> data ! i = CHR ''>'')
      then html_comment_end data (i + 1) else i)"
  by pat_completeness auto
termination
  by (relation "measure (\<lambda>(data, i). length data - i)") auto

declare html_comment_end.simps [simp del]

text \<open>
  \<open>parse_htmlblock\<close>.  \<open>hoedown_find_block_tag\<close> is declared in markdown.c and defined in
  html_blocks.h; it is the argument \<open>find_block_tag\<close>, from the bytes of a tag name to the
  name of the block tag of its table, if there is one.  The block found is \<open>data[0..n)\<close>;
  \<open>n\<close> can be one more than \<open>size\<close> when the last line has no newline, and the callback is
  shown the bytes of the span.  With \<open>do_render = 0\<close> nothing is called.
\<close>

definition html_rendered ::
  "bytes \<Rightarrow> 'o hoedown_markdown \<Rightarrow> bytes \<Rightarrow> nat \<Rightarrow> bool \<Rightarrow> bytes \<times> 'o hoedown_markdown \<times> nat" where
  "html_rendered ob md data n do_render =
     (if do_render
      then (case call_opt (blockhtml (rndr md)) ob (take n data) md of (ob1, md1) \<Rightarrow> (ob1, md1, n))
      else (ob, md, n))"

definition parse_htmlblock ::
  "(bytes \<Rightarrow> bytes option) \<Rightarrow> bytes \<Rightarrow> 'o hoedown_markdown \<Rightarrow> bytes \<Rightarrow> bool
     \<Rightarrow> bytes \<times> 'o hoedown_markdown \<times> nat" where
  "parse_htmlblock find_block_tag ob md data do_render =
     (let sz = length data
      in if sz < 2 \<or> data ! 0 \<noteq> CHR ''<'' then (ob, md, 0)
         else
           (let i = skip_while (\<lambda>c. c \<noteq> CHR ''>'' \<and> c \<noteq> CHR '' '') data sz 1
            in case (if i < sz then find_block_tag (slice data 1 i) else None) of
                 None \<Rightarrow>
                   (let comment =
                          (if sz > 5 \<and> data ! 1 = CHR ''!'' \<and> data ! 2 = CHR ''-'' \<and> data ! 3 = CHR ''-''
                           then
                             (let i1 = html_comment_end data 5 + 1;
                                  j = (if i1 < sz then is_empty (drop i1 data) else 0)
                              in if j \<noteq> 0 then i1 + j else 0)
                           else 0)
                    in if comment \<noteq> 0 then html_rendered ob md data comment do_render
                       else
                         (let hr =
                                (if sz > 4 \<and> (data ! 1 = CHR ''h'' \<or> data ! 1 = CHR ''H'')
                                    \<and> (data ! 2 = CHR ''r'' \<or> data ! 2 = CHR ''R'')
                                 then
                                   (let i2 = skip_while (\<lambda>c. c \<noteq> CHR ''>'') data sz 3
                                    in if i2 + 1 < sz then
                                         (let j = is_empty (drop (i2 + 1) data)
                                          in if j \<noteq> 0 then i2 + 1 + j else 0)
                                       else 0)
                                 else 0)
                          in if hr \<noteq> 0 then html_rendered ob md data hr do_render
                             else (ob, md, 0)))
               | Some curtag \<Rightarrow>
                   (let tag_end0 = htmlblock_end curtag data True;
                        tag_end = (if tag_end0 = 0 \<and> curtag \<noteq> ''ins'' \<and> curtag \<noteq> ''del''
                                   then htmlblock_end curtag data False else tag_end0)
                    in if tag_end = 0 then (ob, md, 0)
                       else html_rendered ob md data tag_end do_render)))"


subsection \<open>Headers, quotes, paragraphs and code\<close>

text \<open>
  The block functions that parse their content call \<open>parse_inline\<close> and \<open>parse_block\<close>;
  they take them as the arguments \<open>reci\<close> and \<open>recb\<close>.  A block function returns the
  output buffer, the parser and the number of bytes of the block; a buffer borrowed with
  \<open>newbuf\<close> starts empty and is the first argument of the parser that fills it.
\<close>

definition parse_atxheader ::
  "'o inline_parser \<Rightarrow> bytes \<Rightarrow> 'o hoedown_markdown \<Rightarrow> bytes \<Rightarrow> 'o parse_result" where
  "parse_atxheader reci ob md data =
     (let sz = length data;
          level = skip_while (\<lambda>c. c = CHR ''#'') data (min sz 6) 0;
          i = skip_while (\<lambda>c. c = CHR '' '') data sz level;
          skip = skip_while (\<lambda>c. c \<noteq> CHR 0x0A) data sz i;
          end1 = back_while (\<lambda>c. c = CHR ''#'') data 0 skip;
          end2 = back_while (\<lambda>c. c = CHR '' '') data 0 end1
      in if end2 > i then
           (case reci [] (newbuf md BUFFER_SPAN) (slice data i end2) of
              None \<Rightarrow> None
            | Some (work, md1) \<Rightarrow>
                (case call_opt (header (rndr md1)) ob (work, level) md1 of (ob2, md2) \<Rightarrow>
                   Some (ob2, popbuf md2 BUFFER_SPAN, skip)))
         else Some (ob, md, skip))"

text \<open>
  The loop of \<open>parse_blockquote\<close>: it gathers the lines of the quote without their
  prefixes and returns \<open>end\<close> with them.  The source moves the lines together inside
  \<open>data\<close> (\<open>memmove\<close>, over bytes of the quote it has read already) and parses them there;
  here they are gathered in \<open>work\<close>.
\<close>

function blockquote_lines :: "bytes \<Rightarrow> nat \<Rightarrow> nat \<Rightarrow> bytes \<Rightarrow> nat \<times> bytes" where
  "blockquote_lines data beg end0 work =
     (if beg < length data then
        (let sz = length data;
             end1 = next_line data (beg + 1);
             pre = prefix_quote (slice data beg end1)
         in if pre = 0 \<and> is_empty (slice data beg end1) \<noteq> 0
               \<and> (end1 \<ge> sz \<or> (prefix_quote (drop end1 data) = 0 \<and> is_empty (drop end1 data) = 0))
            then (end1, work)
            else
              (let beg1 = (if pre \<noteq> 0 then beg + pre else beg)
               in blockquote_lines data end1 end1
                    (if beg1 < end1 then work @ slice data beg1 end1 else work)))
      else (end0, work))"
  by pat_completeness auto
termination
proof (relation "measure (\<lambda>(data, beg, end0, work). length data - beg)", goal_cases)
  case 1
  show ?case by simp
next
  case (2 data beg end0 work sz end1 pre beg1)
  then show ?case
    using next_line_ge [of "beg + 1" data] by simp
qed

declare blockquote_lines.simps [simp del]

definition parse_blockquote ::
  "'o inline_parser \<Rightarrow> bytes \<Rightarrow> 'o hoedown_markdown \<Rightarrow> bytes \<Rightarrow> 'o parse_result" where
  "parse_blockquote recb ob md data =
     (case blockquote_lines data 0 0 [] of (end1, work) \<Rightarrow>
        (case recb [] (newbuf md BUFFER_BLOCK) work of
           None \<Rightarrow> None
         | Some (out, md1) \<Rightarrow>
             (case call_opt (blockquote (rndr md1)) ob out md1 of (ob2, md2) \<Rightarrow>
                Some (ob2, popbuf md2 BUFFER_BLOCK, end1))))"

text \<open>
  The tests that end a paragraph at the line that begins at \<open>i\<close>, which ends at \<open>end1\<close>,
  with the values of \<open>end\<close> and \<open>level\<close> they leave; \<open>None\<close> when the paragraph goes on.
\<close>

definition paragraph_break ::
  "(bytes \<Rightarrow> bytes option) \<Rightarrow> bytes \<Rightarrow> 'o hoedown_markdown \<Rightarrow> bytes \<Rightarrow> nat \<Rightarrow> nat
     \<Rightarrow> (nat \<times> nat) option" where
  "paragraph_break find_block_tag ob md data i end1 =
     (let rest = drop i data
      in if is_empty rest \<noteq> 0 then Some (end1, 0)
         else if is_headerline rest \<noteq> 0 then Some (end1, is_headerline rest)
         else if is_atxheader md rest \<or> is_hrule rest \<or> prefix_quote rest \<noteq> 0 then Some (i, 0)
         else if HOEDOWN_EXT_LAX_SPACING \<in> ext_flags md \<and> \<not> isalnum (data ! i)
                 \<and> (prefix_oli rest \<noteq> 0 \<or> prefix_uli rest \<noteq> 0
                      \<or> (data ! i = CHR ''<'' \<and> blockhtml (rndr md) \<noteq> None
                           \<and> snd (snd (parse_htmlblock find_block_tag ob md rest False)) \<noteq> 0)
                      \<or> (HOEDOWN_EXT_FENCED_CODE \<in> ext_flags md \<and> fst (is_codefence rest) \<noteq> 0))
         then Some (i, 0)
         else None)"

text \<open>The loop of \<open>parse_paragraph\<close>, which returns \<open>i\<close>, \<open>end\<close> and \<open>level\<close>.\<close>

function paragraph_end ::
  "(bytes \<Rightarrow> bytes option) \<Rightarrow> bytes \<Rightarrow> 'o hoedown_markdown \<Rightarrow> bytes \<Rightarrow> nat \<Rightarrow> nat
     \<Rightarrow> nat \<times> nat \<times> nat" where
  "paragraph_end find_block_tag ob md data i end0 =
     (if i < length data then
        (case paragraph_break find_block_tag ob md data i (next_line data (i + 1)) of
           Some (end1, level) \<Rightarrow> (i, end1, level)
         | None \<Rightarrow>
             paragraph_end find_block_tag ob md data (next_line data (i + 1)) (next_line data (i + 1)))
      else (i, end0, 0))"
  by pat_completeness auto
termination
proof (relation "measure (\<lambda>(find_block_tag, ob, md, data, i, end0). length data - i)", goal_cases)
  case 1
  show ?case by simp
next
  case (2 find_block_tag ob md data i end0)
  then show ?case
    using next_line_ge [of "i + 1" data] by simp
qed

declare paragraph_end.simps [simp del]

text \<open>A paragraph: the text is parsed into a block buffer and given to \<open>paragraph\<close>.\<close>

definition render_paragraph ::
  "'o inline_parser \<Rightarrow> bytes \<Rightarrow> 'o hoedown_markdown \<Rightarrow> bytes
     \<Rightarrow> (bytes \<times> 'o hoedown_markdown) option" where
  "render_paragraph reci ob md work =
     (case reci [] (newbuf md BUFFER_BLOCK) work of
        None \<Rightarrow> None
      | Some (tmp, md1) \<Rightarrow>
          (case call_opt (paragraph_cb (rndr md1)) ob tmp md1 of (ob2, md2) \<Rightarrow>
             Some (ob2, popbuf md2 BUFFER_BLOCK)))"

text \<open>
  \<open>parse_paragraph\<close>.  With \<open>level\<close> not 0 the last line of the text is the title of a
  header and the lines before it, if any, are a paragraph.
\<close>

definition parse_paragraph ::
  "(bytes \<Rightarrow> bytes option) \<Rightarrow> 'o inline_parser \<Rightarrow> bytes \<Rightarrow> 'o hoedown_markdown \<Rightarrow> bytes
     \<Rightarrow> 'o parse_result" where
  "parse_paragraph find_block_tag reci ob md data =
     (case paragraph_end find_block_tag ob md data 0 0 of (i, end1, level) \<Rightarrow>
        (let work_size = back_while (\<lambda>c. c = CHR 0x0A) data 0 i
         in if level = 0 then
              (case render_paragraph reci ob md (take work_size data) of
                 None \<Rightarrow> None
               | Some (ob1, md1) \<Rightarrow> Some (ob1, md1, end1))
            else
              (case (if work_size \<noteq> 0 then
                       (let i1 = work_size;
                            ws1 = back_while_at (\<lambda>c. c \<noteq> CHR 0x0A) data 0 (work_size - 1);
                            beg = ws1 + 1;
                            ws2 = back_while (\<lambda>c. c = CHR 0x0A) data 0 ws1
                        in if ws2 > 0 then
                             (case render_paragraph reci ob md (take ws2 data) of
                                None \<Rightarrow> None
                              | Some (ob1, md1) \<Rightarrow> Some (ob1, md1, slice data beg i1))
                           else Some (ob, md, take i1 data))
                     else Some (ob, md, [])) of
                 None \<Rightarrow> None
               | Some (ob1, md1, title) \<Rightarrow>
                   (case reci [] (newbuf md1 BUFFER_SPAN) title of
                      None \<Rightarrow> None
                    | Some (header_work, md2) \<Rightarrow>
                        (case call_opt (header (rndr md2)) ob1 (header_work, level) md2 of
                           (ob3, md3) \<Rightarrow> Some (ob3, popbuf md3 BUFFER_SPAN, end1))))))"

text \<open>
  The line copied by the two code blocks: an empty line becomes one newline.
  \<open>if (is_empty(data + beg, end - beg)) putc(work, '\n'); else put(work, data + beg, end - beg);\<close>
\<close>

definition put_code_line :: "bytes \<Rightarrow> bytes \<Rightarrow> nat \<Rightarrow> nat \<Rightarrow> bytes" where
  "put_code_line work data beg end1 =
     (if beg < end1 then
        (if is_empty (slice data beg end1) \<noteq> 0 then work @ [CHR 0x0A]
         else work @ slice data beg end1)
      else work)"

text \<open>The loop of \<open>parse_fencedcode\<close>, up to the closing fence; it returns \<open>beg\<close> and \<open>work\<close>.\<close>

function fencedcode_lines :: "bytes \<Rightarrow> nat \<Rightarrow> bytes \<Rightarrow> nat \<times> bytes" where
  "fencedcode_lines data beg work =
     (if beg < length data then
        (case is_codefence (drop beg data) of (fence_end, fence_trail) \<Rightarrow>
           if fence_end \<noteq> 0 \<and> fence_trail = [] then (beg + fence_end, work)
           else fencedcode_lines data (next_line data (beg + 1))
                  (put_code_line work data beg (next_line data (beg + 1))))
      else (beg, work))"
  by pat_completeness auto
termination
  by (relation "measure (\<lambda>(data, beg, work). length data - beg)") (auto simp: next_line_decr)

declare fencedcode_lines.simps [simp del]

definition parse_fencedcode ::
  "bytes \<Rightarrow> 'o hoedown_markdown \<Rightarrow> bytes \<Rightarrow> bytes \<times> 'o hoedown_markdown \<times> nat" where
  "parse_fencedcode ob md data =
     (case is_codefence data of (beg0, lang) \<Rightarrow>
        if beg0 = 0 then (ob, md, 0)
        else
          (case fencedcode_lines data beg0 [] of (beg, work0) \<Rightarrow>
             (let md1 = newbuf md BUFFER_BLOCK;
                  work = (if work0 \<noteq> [] \<and> last work0 \<noteq> CHR 0x0A then work0 @ [CHR 0x0A] else work0)
              in case call_opt (blockcode (rndr md1)) ob
                        (work, if lang \<noteq> [] then Some lang else None) md1 of
                   (ob2, md2) \<Rightarrow> (ob2, popbuf md2 BUFFER_BLOCK, beg))))"

text \<open>The loop of \<open>parse_blockcode\<close>: the lines indented by four spaces and the empty ones.\<close>

function blockcode_lines :: "bytes \<Rightarrow> nat \<Rightarrow> bytes \<Rightarrow> nat \<times> bytes" where
  "blockcode_lines data beg work =
     (if beg < length data then
        (let end1 = next_line data (beg + 1);
             pre = prefix_code (slice data beg end1)
         in if pre = 0 \<and> is_empty (slice data beg end1) = 0 then (beg, work)
            else
              (let beg1 = (if pre \<noteq> 0 then beg + pre else beg)
               in blockcode_lines data end1 (put_code_line work data beg1 end1)))
      else (beg, work))"
  by pat_completeness auto
termination
proof (relation "measure (\<lambda>(data, beg, work). length data - beg)", goal_cases)
  case 1
  show ?case by simp
next
  case (2 data beg work end1 pre beg1)
  then show ?case
    using next_line_ge [of "beg + 1" data] by simp
qed

declare blockcode_lines.simps [simp del]

definition parse_blockcode ::
  "bytes \<Rightarrow> 'o hoedown_markdown \<Rightarrow> bytes \<Rightarrow> bytes \<times> 'o hoedown_markdown \<times> nat" where
  "parse_blockcode ob md data =
     (case blockcode_lines data 0 [] of (beg, work0) \<Rightarrow>
        (let md1 = newbuf md BUFFER_BLOCK;
             work = take (back_while (\<lambda>c. c = CHR 0x0A) work0 0 (length work0)) work0 @ [CHR 0x0A]
         in case call_opt (blockcode (rndr md1)) ob (work, None) md1 of
              (ob2, md2) \<Rightarrow> (ob2, popbuf md2 BUFFER_BLOCK, beg)))"


subsection \<open>Lists\<close>

text \<open>
  The variables of the loop of \<open>parse_listitem\<close>.  At the head of the loop \<open>end\<close> is equal
  to \<open>beg\<close>, so the state keeps \<open>beg\<close> only, and \<open>end++\<close> with the search of the end of the
  line gives \<open>next_line data (beg + 1)\<close>.
\<close>

record listitem_state =
  li_beg :: nat
  li_work :: bytes
  li_in_empty :: bool
  li_has_inside_empty :: bool
  li_in_fence :: bool
  li_sublist :: nat
  li_flags :: "hoedown_listflags set"

text \<open>
  One turn of the loop \<open>while (beg < size)\<close> of \<open>parse_listitem\<close>, on the line from \<open>beg\<close>
  to \<open>end1\<close>: \<open>Return\<close> is a \<open>break\<close>, \<open>Continue\<close> a turn that goes on to the next line,
  by \<open>continue\<close> or at the end of the body, both after \<open>beg = end\<close>.
\<close>

definition parse_listitem_step ::
  "'o hoedown_markdown \<Rightarrow> bytes \<Rightarrow> nat \<Rightarrow> nat \<Rightarrow> listitem_state
     \<Rightarrow> (listitem_state, listitem_state) loop_step" where
  "parse_listitem_step md data orgpre end1 st =
     (let beg = li_beg st
      in if is_empty (slice data beg end1) \<noteq> 0 then Continue (st\<lparr>li_in_empty := True\<rparr>)
         else
           (let i = skip_while (\<lambda>c. c = CHR '' '') data (min end1 (beg + 4)) beg - beg;
                pre = i;
                line = slice data (beg + i) end1;
                in_fence = (if HOEDOWN_EXT_FENCED_CODE \<in> ext_flags md \<and> fst (is_codefence line) \<noteq> 0
                            then \<not> li_in_fence st else li_in_fence st);
                has_next_uli = (if \<not> in_fence then prefix_uli line else 0);
                has_next_oli = (if \<not> in_fence then prefix_oli line else 0);
                st1 = st\<lparr>li_in_fence := in_fence\<rparr>
            in if li_in_empty st
                  \<and> ((HOEDOWN_LIST_ORDERED \<in> li_flags st \<and> has_next_uli \<noteq> 0)
                       \<or> (HOEDOWN_LIST_ORDERED \<notin> li_flags st \<and> has_next_oli \<noteq> 0))
               then Return (st1\<lparr>li_flags := insert HOEDOWN_LI_END (li_flags st)\<rparr>)
               else if (has_next_uli \<noteq> 0 \<and> \<not> is_hrule line) \<or> has_next_oli \<noteq> 0 then
                 (let st2 = (if li_in_empty st then st1\<lparr>li_has_inside_empty := True\<rparr> else st1)
                  in if pre = orgpre then Return st2
                     else
                       Continue (st2\<lparr>li_sublist := (if li_sublist st = 0 then length (li_work st)
                                                       else li_sublist st),
                                     li_in_empty := False,
                                     li_work := li_work st @ line\<rparr>))
               else if li_in_empty st \<and> pre = 0
               then Return (st1\<lparr>li_flags := insert HOEDOWN_LI_END (li_flags st)\<rparr>)
               else if li_in_empty st
               then Continue (st1\<lparr>li_has_inside_empty := True, li_in_empty := False,
                                   li_work := li_work st @ [CHR 0x0A] @ line\<rparr>)
               else Continue (st1\<lparr>li_in_empty := False, li_work := li_work st @ line\<rparr>)))"

function parse_listitem_loop ::
  "'o hoedown_markdown \<Rightarrow> bytes \<Rightarrow> nat \<Rightarrow> listitem_state \<Rightarrow> listitem_state" where
  "parse_listitem_loop md data orgpre st =
     (if li_beg st < length data then
        (case parse_listitem_step md data orgpre (next_line data (li_beg st + 1)) st of
           Return st' \<Rightarrow> st'
         | Continue st' \<Rightarrow>
             parse_listitem_loop md data orgpre (st'\<lparr>li_beg := next_line data (li_beg st + 1)\<rparr>))
      else st)"
  by pat_completeness auto
termination
  by (relation "measure (\<lambda>(md, data, orgpre, st). length data - li_beg st)")
     (auto simp: next_line_decr)

declare parse_listitem_loop.simps [simp del]

text \<open>
  \<open>parse_listitem\<close>.  The result has the flags, which the source writes through the
  pointer \<open>flags\<close>.  The content is in the buffer \<open>work\<close> and its rendering in \<open>inter\<close>,
  both borrowed from the span pool.
\<close>

definition parse_listitem ::
  "'o inline_parser \<Rightarrow> 'o inline_parser \<Rightarrow> bytes \<Rightarrow> 'o hoedown_markdown \<Rightarrow> bytes
     \<Rightarrow> hoedown_listflags set
     \<Rightarrow> (bytes \<times> 'o hoedown_markdown \<times> nat \<times> hoedown_listflags set) option" where
  "parse_listitem reci recb ob md data flags =
     (let sz = length data;
          orgpre = skip_while (\<lambda>c. c = CHR '' '') data (min sz 3) 0;
          beg0 = (if prefix_uli data \<noteq> 0 then prefix_uli data else prefix_oli data)
      in if beg0 = 0 then Some (ob, md, 0, flags)
         else
           (let end0 = next_line data beg0;
                md1 = newbuf (newbuf md BUFFER_SPAN) BUFFER_SPAN;
                st = parse_listitem_loop md1 data orgpre
                       \<lparr>li_beg = end0, li_work = slice data beg0 end0, li_in_empty = False,
                        li_has_inside_empty = False, li_in_fence = False, li_sublist = 0,
                        li_flags = flags\<rparr>;
                flags1 = (if li_has_inside_empty st then insert HOEDOWN_LI_BLOCK (li_flags st)
                          else li_flags st);
                work = li_work st;
                sublist = li_sublist st
            in case (if HOEDOWN_LI_BLOCK \<in> flags1 then
                       (if sublist \<noteq> 0 \<and> sublist < length work then
                          (case recb [] md1 (take sublist work) of
                             None \<Rightarrow> None
                           | Some (inter_buf, md2) \<Rightarrow> recb inter_buf md2 (drop sublist work))
                        else recb [] md1 work)
                     else
                       (if sublist \<noteq> 0 \<and> sublist < length work then
                          (case reci [] md1 (take sublist work) of
                             None \<Rightarrow> None
                           | Some (inter_buf, md2) \<Rightarrow> recb inter_buf md2 (drop sublist work))
                        else reci [] md1 work)) of
                 None \<Rightarrow> None
               | Some (inter_buf, md3) \<Rightarrow>
                   (case call_opt (listitem (rndr md3)) ob (inter_buf, flags1) md3 of (ob4, md4) \<Rightarrow>
                      Some (ob4, popbuf (popbuf md4 BUFFER_SPAN) BUFFER_SPAN, li_beg st, flags1))))"

text \<open>
  The loop of \<open>parse_list\<close> over the items; \<open>item\<close> is \<open>parse_listitem\<close> with its parsers.
\<close>

function parse_list_loop ::
  "(bytes \<Rightarrow> 'o hoedown_markdown \<Rightarrow> bytes \<Rightarrow> hoedown_listflags set
      \<Rightarrow> (bytes \<times> 'o hoedown_markdown \<times> nat \<times> hoedown_listflags set) option)
     \<Rightarrow> bytes \<Rightarrow> 'o hoedown_markdown \<Rightarrow> bytes \<Rightarrow> nat \<Rightarrow> hoedown_listflags set
     \<Rightarrow> (bytes \<times> 'o hoedown_markdown \<times> nat \<times> hoedown_listflags set) option" where
  "parse_list_loop item work md data i flags =
     (if i < length data then
        (case item work md (drop i data) flags of
           None \<Rightarrow> None
         | Some (work1, md1, j, flags1) \<Rightarrow>
             if j = 0 \<or> HOEDOWN_LI_END \<in> flags1 then Some (work1, md1, i + j, flags1)
             else parse_list_loop item work1 md1 data (i + j) flags1)
      else Some (work, md, i, flags))"
  by pat_completeness auto
termination
  by (relation "measure (\<lambda>(item, work, md, data, i, flags). length data - i)") auto

declare parse_list_loop.simps [simp del]

definition parse_list ::
  "'o inline_parser \<Rightarrow> 'o inline_parser \<Rightarrow> bytes \<Rightarrow> 'o hoedown_markdown \<Rightarrow> bytes
     \<Rightarrow> hoedown_listflags set \<Rightarrow> 'o parse_result" where
  "parse_list reci recb ob md data flags =
     (case parse_list_loop (parse_listitem reci recb) [] (newbuf md BUFFER_BLOCK) data 0 flags of
        None \<Rightarrow> None
      | Some (work, md1, i, flags1) \<Rightarrow>
          (case call_opt (list_cb (rndr md1)) ob (work, flags1) md1 of (ob2, md2) \<Rightarrow>
             Some (ob2, popbuf md2 BUFFER_BLOCK, i)))"


subsection \<open>Footnotes\<close>

definition parse_footnote_def ::
  "'o inline_parser \<Rightarrow> bytes \<Rightarrow> 'o hoedown_markdown \<Rightarrow> nat \<Rightarrow> bytes
     \<Rightarrow> (bytes \<times> 'o hoedown_markdown) option" where
  "parse_footnote_def recb ob md n data =
     (case recb [] (newbuf md BUFFER_SPAN) data of
        None \<Rightarrow> None
      | Some (work, md1) \<Rightarrow>
          (case call_opt (footnote_def (rndr md1)) ob (work, n) md1 of (ob2, md2) \<Rightarrow>
             Some (ob2, popbuf md2 BUFFER_SPAN)))"

text \<open>
  The loop of \<open>parse_footnote_list\<close> over the list \<open>footnotes_used\<close>, \<open>k\<close> being the place of
  \<open>item\<close> in it.  The list can grow while it is walked, when the text of a footnote holds
  a footnote reference, so the loop runs on a fuel and is \<open>None\<close> when the fuel is spent.
\<close>

primrec parse_footnote_items ::
  "nat \<Rightarrow> 'o inline_parser \<Rightarrow> bytes \<Rightarrow> 'o hoedown_markdown \<Rightarrow> nat
     \<Rightarrow> (bytes \<times> 'o hoedown_markdown) option" where
  "parse_footnote_items 0 recb work md k = None"
| "parse_footnote_items (Suc fuel) recb work md k =
     (if k < length (footnotes_used md) then
        (let ref = footnotes_found md ! (footnotes_used md ! k)
         in case parse_footnote_def recb work md (num ref) (contents ref) of
              None \<Rightarrow> None
            | Some (work1, md1) \<Rightarrow> parse_footnote_items fuel recb work1 md1 (k + 1))
      else Some (work, md))"

definition parse_footnote_list ::
  "nat \<Rightarrow> 'o inline_parser \<Rightarrow> bytes \<Rightarrow> 'o hoedown_markdown
     \<Rightarrow> (bytes \<times> 'o hoedown_markdown) option" where
  "parse_footnote_list fuel recb ob md =
     (if length (footnotes_used md) = 0 then Some (ob, md)
      else
        (case parse_footnote_items fuel recb [] (newbuf md BUFFER_BLOCK) 0 of
           None \<Rightarrow> None
         | Some (work, md1) \<Rightarrow>
             (case call_opt (footnotes (rndr md1)) ob work md1 of (ob2, md2) \<Rightarrow>
                Some (ob2, popbuf md2 BUFFER_BLOCK))))"

subsection \<open>Tables\<close>

text \<open>A callback called without a test for null: a null pointer is a crash, \<open>None\<close>.\<close>

definition call_req ::
  "('a, 'o) void_cb option \<Rightarrow> bytes \<Rightarrow> 'a \<Rightarrow> 'o hoedown_markdown
     \<Rightarrow> (bytes \<times> 'o hoedown_markdown) option" where
  "call_req cb ob arg md = (case cb of None \<Rightarrow> None | Some f \<Rightarrow> Some (call_void f ob arg md))"

text \<open>
  The first loop of \<open>parse_table_row\<close>, over the cells that the row has; it returns
  \<open>row_work\<close> and \<open>col\<close>.  \<open>col_data\<close> is the array of the alignments of the columns.
\<close>

function table_cells ::
  "'o inline_parser \<Rightarrow> bytes \<Rightarrow> 'o hoedown_markdown \<Rightarrow> bytes \<Rightarrow> nat
     \<Rightarrow> hoedown_tableflags set list \<Rightarrow> hoedown_tableflags set \<Rightarrow> nat \<Rightarrow> nat
     \<Rightarrow> (bytes \<times> 'o hoedown_markdown \<times> nat) option" where
  "table_cells reci row_work md data columns col_data header_flag i col =
     (if col < columns \<and> i < length data then
        (let md1 = newbuf md BUFFER_SPAN;
             cell_start = skip_while isspace_md data (length data) i;
             i1 = skip_while (\<lambda>c. c \<noteq> CHR ''|'') data (length data) cell_start;
             cell_end = back_while_at isspace_md data cell_start (i1 - 1)
         in case reci [] md1 (slice data cell_start (1 + cell_end)) of
              None \<Rightarrow> None
            | Some (cell_work, md2) \<Rightarrow>
                (case call_req (table_cell (rndr md2)) row_work
                        (cell_work, col_data ! col \<union> header_flag) md2 of
                   None \<Rightarrow> None
                 | Some (row_work1, md3) \<Rightarrow>
                     table_cells reci row_work1 (popbuf md3 BUFFER_SPAN) data columns col_data
                       header_flag (i1 + 1) (col + 1)))
      else Some (row_work, md, col))"
  by pat_completeness auto
termination
  by (relation "measure (\<lambda>(reci, row_work, md, data, columns, col_data, header_flag, i, col).
        columns - col)") auto

declare table_cells.simps [simp del]

text \<open>The second loop: an empty cell for each column that the row does not have.\<close>

function table_empty_cells ::
  "bytes \<Rightarrow> 'o hoedown_markdown \<Rightarrow> nat \<Rightarrow> hoedown_tableflags set list
     \<Rightarrow> hoedown_tableflags set \<Rightarrow> nat \<Rightarrow> (bytes \<times> 'o hoedown_markdown) option" where
  "table_empty_cells row_work md columns col_data header_flag col =
     (if col < columns then
        (case call_req (table_cell (rndr md)) row_work ([], col_data ! col \<union> header_flag) md of
           None \<Rightarrow> None
         | Some (row_work1, md1) \<Rightarrow>
             table_empty_cells row_work1 md1 columns col_data header_flag (col + 1))
      else Some (row_work, md))"
  by pat_completeness auto
termination
  by (relation "measure (\<lambda>(row_work, md, columns, col_data, header_flag, col). columns - col)")
     auto

declare table_empty_cells.simps [simp del]

definition parse_table_row ::
  "'o inline_parser \<Rightarrow> bytes \<Rightarrow> 'o hoedown_markdown \<Rightarrow> bytes \<Rightarrow> nat
     \<Rightarrow> hoedown_tableflags set list \<Rightarrow> hoedown_tableflags set
     \<Rightarrow> (bytes \<times> 'o hoedown_markdown) option" where
  "parse_table_row reci ob md data columns col_data header_flag =
     (if table_cell (rndr md) = None \<or> table_row (rndr md) = None then Some (ob, md)
      else
        (let md1 = newbuf md BUFFER_SPAN;
             i0 = (if 0 < length data \<and> data ! 0 = CHR ''|'' then 1 else 0)
         in case table_cells reci [] md1 data columns col_data header_flag i0 0 of
              None \<Rightarrow> None
            | Some (row_work, md2, col) \<Rightarrow>
                (case table_empty_cells row_work md2 columns col_data header_flag col of
                   None \<Rightarrow> None
                 | Some (row_work2, md3) \<Rightarrow>
                     (case call_req (table_row (rndr md3)) ob row_work2 md3 of
                        None \<Rightarrow> None
                      | Some (ob4, md4) \<Rightarrow> Some (ob4, popbuf md4 BUFFER_SPAN)))))"

text \<open>
  One turn of the loop of \<open>parse_table_header\<close> over the underline of the header, for
  the column \<open>col\<close>.  The first test of a colon is made without a test of \<open>i\<close>: at the end
  of the span it reads the byte after it, a null byte for \<open>byte_at\<close>.
\<close>

definition table_underline_step ::
  "bytes \<Rightarrow> nat \<Rightarrow> hoedown_tableflags set list \<Rightarrow> nat \<Rightarrow> nat
     \<Rightarrow> (nat \<times> hoedown_tableflags set list, hoedown_tableflags set list \<times> nat \<times> nat) loop_step" where
  "table_underline_step data under_end col_data col i =
     (let i1 = skip_while (\<lambda>c. c = CHR '' '') data under_end i;
          colon1 = (byte_at data i1 = CHR '':'');
          i2 = (if colon1 then i1 + 1 else i1);
          cd1 = (if colon1 then col_data[col := insert HOEDOWN_TABLE_ALIGN_L (col_data ! col)]
                 else col_data);
          i3 = skip_while (\<lambda>c. c = CHR ''-'') data under_end i2;
          colon2 = (i3 < under_end \<and> data ! i3 = CHR '':'');
          i4 = (if colon2 then i3 + 1 else i3);
          cd2 = (if colon2 then cd1[col := insert HOEDOWN_TABLE_ALIGN_R (cd1 ! col)] else cd1);
          dashes = (if colon1 then 1 else 0) + (i3 - i2) + (if colon2 then 1 else 0);
          i5 = skip_while (\<lambda>c. c = CHR '' '') data under_end i4
      in if i5 < under_end \<and> data ! i5 \<noteq> CHR ''|'' \<and> data ! i5 \<noteq> CHR ''+'' then Return (col, cd2)
         else if dashes < (3 :: nat) then Return (col, cd2)
         else Continue (cd2, col + 1, i5 + 1))"

lemma table_underline_step_Continue:
  "table_underline_step data under_end col_data col i = Continue (cd, col', i') \<Longrightarrow> col' = col + 1"
  by (auto simp: table_underline_step_def Let_def split: if_splits)

function table_underline ::
  "bytes \<Rightarrow> nat \<Rightarrow> nat \<Rightarrow> hoedown_tableflags set list \<Rightarrow> nat \<Rightarrow> nat
     \<Rightarrow> nat \<times> hoedown_tableflags set list" where
  "table_underline data under_end columns col_data col i =
     (if col < columns \<and> i < under_end then
        (case table_underline_step data under_end col_data col i of
           Return r \<Rightarrow> r
         | Continue (cd, col', i') \<Rightarrow> table_underline data under_end columns cd col' i')
      else (col, col_data))"
  by pat_completeness auto
termination
  by (relation "measure (\<lambda>(data, under_end, columns, col_data, col, i). columns - col)")
     (auto dest: table_underline_step_Continue)

declare table_underline.simps [simp del]

text \<open>
  \<open>parse_table_header\<close>: the size of the header with its underline, 0 when the span does
  not begin with one, and the \<open>columns\<close> and \<open>col_data\<close> it writes through its pointers.
  \<open>pipes\<close> is an \<open>int\<close>.
\<close>

definition parse_table_header ::
  "'o inline_parser \<Rightarrow> bytes \<Rightarrow> 'o hoedown_markdown \<Rightarrow> bytes
     \<Rightarrow> (bytes \<times> 'o hoedown_markdown \<times> nat \<times> nat \<times> hoedown_tableflags set list) option" where
  "parse_table_header reci ob md data =
     (let sz = length data;
          i = skip_while (\<lambda>c. c \<noteq> CHR 0x0A) data sz 0;
          pipes = int (length (filter (\<lambda>c. c = CHR ''|'') (take i data)))
      in if i = sz \<or> pipes = 0 then Some (ob, md, 0, 0, [])
         else
           (let header_end = back_while isspace_md data 0 i;
                pipes1 = (if data ! 0 = CHR ''|'' then pipes - 1 else pipes);
                pipes2 = (if header_end \<noteq> 0 \<and> data ! (header_end - 1) = CHR ''|''
                          then pipes1 - 1 else pipes1)
            in if pipes2 < 0 then Some (ob, md, 0, 0, [])
               else
                 (let columns = nat (pipes2 + 1);
                      i1 = i + 1;
                      i2 = (if i1 < sz \<and> data ! i1 = CHR ''|'' then i1 + 1 else i1);
                      under_end = skip_while (\<lambda>c. c \<noteq> CHR 0x0A) data sz i2
                  in case table_underline data under_end columns (replicate columns {}) 0 i2 of
                       (col, col_data) \<Rightarrow>
                         if col < columns then Some (ob, md, 0, columns, col_data)
                         else
                           (case parse_table_row reci ob md (take header_end data) columns col_data
                                   {HOEDOWN_TABLE_HEADER} of
                              None \<Rightarrow> None
                            | Some (ob1, md1) \<Rightarrow> Some (ob1, md1, under_end + 1, columns, col_data)))))"

text \<open>The loop of \<open>parse_table\<close> over the rows of the body; it returns \<open>i\<close>.\<close>

function table_rows ::
  "'o inline_parser \<Rightarrow> bytes \<Rightarrow> 'o hoedown_markdown \<Rightarrow> bytes \<Rightarrow> nat
     \<Rightarrow> hoedown_tableflags set list \<Rightarrow> nat \<Rightarrow> (bytes \<times> 'o hoedown_markdown \<times> nat) option" where
  "table_rows reci body_work md data columns col_data i =
     (if i < length data then
        (let row_start = i;
             i1 = skip_while (\<lambda>c. c \<noteq> CHR 0x0A) data (length data) i;
             pipes = length (filter (\<lambda>c. c = CHR ''|'') (slice data row_start i1))
         in if pipes = 0 \<or> i1 = length data then Some (body_work, md, row_start)
            else
              (case parse_table_row reci body_work md (slice data row_start i1) columns col_data {} of
                 None \<Rightarrow> None
               | Some (body_work1, md1) \<Rightarrow>
                   table_rows reci body_work1 md1 data columns col_data (i1 + 1)))
      else Some (body_work, md, i))"
  by pat_completeness auto
termination
proof (relation "measure (\<lambda>(reci, body_work, md, data, columns, col_data, i). length data - i)",
    goal_cases)
  case 1
  show ?case by simp
next
  case (2 reci body_work md data columns col_data i row_start i1 pipes x2 x y)
  then show ?case
    using skip_while_ge [of i "\<lambda>c. c \<noteq> CHR 0x0A" data "length data"] by simp
qed

declare table_rows.simps [simp del]

definition parse_table ::
  "'o inline_parser \<Rightarrow> bytes \<Rightarrow> 'o hoedown_markdown \<Rightarrow> bytes \<Rightarrow> 'o parse_result" where
  "parse_table reci ob md data =
     (let md1 = newbuf (newbuf md BUFFER_SPAN) BUFFER_BLOCK
      in case parse_table_header reci [] md1 data of
           None \<Rightarrow> None
         | Some (header_work, md2, i, columns, col_data) \<Rightarrow>
             if i > 0 then
               (case table_rows reci [] md2 data columns col_data i of
                  None \<Rightarrow> None
                | Some (body_work, md3, i1) \<Rightarrow>
                    (case call_opt (table (rndr md3)) ob (header_work, body_work) md3 of
                       (ob4, md4) \<Rightarrow>
                         Some (ob4, popbuf (popbuf md4 BUFFER_SPAN) BUFFER_BLOCK, i1)))
             else Some (ob, popbuf (popbuf md2 BUFFER_SPAN) BUFFER_BLOCK, i))"

subsection \<open>Blocks\<close>

text \<open>
  One turn of the loop of \<open>parse_block\<close> on \<open>txt_data = data + beg\<close>, \<open>end = size - beg\<close>:
  the tests in the order of the source, and the number of bytes that the block found
  takes.  The tests with a side condition on a callback or an extension give 0 when the
  condition fails, as the \<open>&&\<close> of the source does.
\<close>

definition parse_block_one ::
  "(bytes \<Rightarrow> bytes option) \<Rightarrow> 'o inline_parser \<Rightarrow> 'o inline_parser \<Rightarrow> bytes
     \<Rightarrow> 'o hoedown_markdown \<Rightarrow> bytes \<Rightarrow> 'o parse_result" where
  "parse_block_one find_block_tag reci recb ob md data =
     (if is_atxheader md data then parse_atxheader reci ob md data
      else
        (case (if data ! 0 = CHR ''<'' \<and> blockhtml (rndr md) \<noteq> None
               then parse_htmlblock find_block_tag ob md data True else (ob, md, 0)) of
           (ob1, md1, i1) \<Rightarrow>
             if i1 \<noteq> 0 then Some (ob1, md1, i1)
             else if is_empty data \<noteq> 0 then Some (ob1, md1, is_empty data)
             else if is_hrule data then
               (case call_opt (hrule (rndr md1)) ob1 () md1 of (ob2, md2) \<Rightarrow>
                  Some (ob2, md2, skip_while (\<lambda>c. c \<noteq> CHR 0x0A) data (length data) 0 + 1))
             else
               (case (if HOEDOWN_EXT_FENCED_CODE \<in> ext_flags md1
                      then parse_fencedcode ob1 md1 data else (ob1, md1, 0)) of
                  (ob2, md2, i2) \<Rightarrow>
                    if i2 \<noteq> 0 then Some (ob2, md2, i2)
                    else
                      (case (if HOEDOWN_EXT_TABLES \<in> ext_flags md2
                             then parse_table reci ob2 md2 data else Some (ob2, md2, 0)) of
                         None \<Rightarrow> None
                       | Some (ob3, md3, i3) \<Rightarrow>
                           if i3 \<noteq> 0 then Some (ob3, md3, i3)
                           else if prefix_quote data \<noteq> 0 then parse_blockquote recb ob3 md3 data
                           else if HOEDOWN_EXT_DISABLE_INDENTED_CODE \<notin> ext_flags md3
                                   \<and> prefix_code data \<noteq> 0
                           then Some (parse_blockcode ob3 md3 data)
                           else if prefix_uli data \<noteq> 0 then parse_list reci recb ob3 md3 data {}
                           else if prefix_oli data \<noteq> 0
                           then parse_list reci recb ob3 md3 data {HOEDOWN_LIST_ORDERED}
                           else parse_paragraph find_block_tag reci ob3 md3 data))))"

text \<open>
  The loop \<open>while (beg < size)\<close> of \<open>parse_block\<close>.  Its end rests on every block taking
  at least one byte, so it runs on a fuel: \<open>None\<close> when the fuel is spent.
\<close>

primrec parse_block_loop ::
  "nat \<Rightarrow> (bytes \<Rightarrow> 'o hoedown_markdown \<Rightarrow> bytes \<Rightarrow> 'o parse_result) \<Rightarrow> bytes
     \<Rightarrow> 'o hoedown_markdown \<Rightarrow> bytes \<Rightarrow> nat \<Rightarrow> (bytes \<times> 'o hoedown_markdown) option" where
  "parse_block_loop 0 one ob md data beg = None"
| "parse_block_loop (Suc fuel) one ob md data beg =
     (if beg < length data then
        (case one ob md (drop beg data) of
           None \<Rightarrow> None
         | Some (ob1, md1, n) \<Rightarrow> parse_block_loop fuel one ob1 md1 data (beg + n))
      else Some (ob, md))"

text \<open>
  \<open>parse_block\<close>, with its recursive calls as the argument \<open>recb\<close> and \<open>parse_inline\<close> as
  \<open>reci\<close>; it opens with the same test of the nesting as \<open>parse_inline\<close>.  \<open>parse_block\<close>
  closes the recursion on the fuel, which bounds the depth of the calls and the turns of
  each loop.
\<close>

definition parse_block_body ::
  "(bytes \<Rightarrow> bytes option) \<Rightarrow> 'o inline_parser \<Rightarrow> 'o inline_parser \<Rightarrow> nat
     \<Rightarrow> 'o inline_parser" where
  "parse_block_body find_block_tag reci recb fuel ob md data =
     (if nesting_exceeded md then Some (ob, md)
      else parse_block_loop fuel (parse_block_one find_block_tag reci recb) ob md data 0)"

primrec parse_block ::
  "autolink_scanners \<Rightarrow> (bytes \<Rightarrow> bytes option) \<Rightarrow> nat \<Rightarrow> 'o inline_parser" where
  "parse_block sc find_block_tag 0 = (\<lambda>ob md data. None)"
| "parse_block sc find_block_tag (Suc fuel) =
     parse_block_body find_block_tag (parse_inline sc (Suc fuel))
       (parse_block sc find_block_tag fuel) (Suc fuel)"

section \<open>The document\<close>

subsection \<open>Reference and footnote definitions\<close>

text \<open>
  The head of \<open>is_footnote\<close> and \<open>is_ref\<close>, after the test \<open>beg + 3 >= end\<close>: up to three
  spaces, counted in \<open>i\<close>; a fourth one is no definition (\<open>None\<close>).
\<close>

definition ref_indent :: "bytes \<Rightarrow> nat \<Rightarrow> nat option" where
  "ref_indent data beg =
     (if data ! beg = CHR '' '' then
        (if data ! (beg + 1) = CHR '' '' then
           (if data ! (beg + 2) = CHR '' '' then
              (if data ! (beg + 3) = CHR '' '' then None else Some 3)
            else Some 2)
         else Some 1)
      else Some 0)"

text \<open>
  The step over the end of a line, in \<open>is_footnote\<close>:
  \<open>if (i < end && (data[i] == '\n' || data[i] == '\r')) { i++; if (i < end && data[i] == '\n' && data[i - 1] == '\r') i++; }\<close>
\<close>

definition eol_skip :: "bytes \<Rightarrow> nat \<Rightarrow> nat \<Rightarrow> nat" where
  "eol_skip data endp i =
     (if i < endp \<and> (data ! i = CHR 0x0A \<or> data ! i = CHR 0x0D) then
        (if i + 1 < endp \<and> data ! (i + 1) = CHR 0x0A \<and> data ! i = CHR 0x0D then i + 2 else i + 1)
      else i)"

text \<open>
  One turn of the loop of \<open>is_footnote\<close> over the lines of the definition; the state is
  \<open>i\<close>, \<open>start\<close>, \<open>in_empty\<close> and \<open>contents\<close>, and a \<open>break\<close> returns \<open>start\<close> and \<open>contents\<close>.
\<close>

definition is_footnote_step ::
  "bytes \<Rightarrow> nat \<Rightarrow> nat \<Rightarrow> nat \<times> nat \<times> bool \<times> bytes
     \<Rightarrow> (nat \<times> bytes, nat \<times> nat \<times> bool \<times> bytes) loop_step" where
  "is_footnote_step data endp id_end st =
     (case st of (i, start, in_empty, cont) \<Rightarrow>
        (let i1 = skip_while (\<lambda>c. c \<noteq> CHR 0x0A \<and> c \<noteq> CHR 0x0D) data endp i
         in if is_empty (slice data start i1) \<noteq> 0
            then Continue (eol_skip data endp i1, eol_skip data endp i1, True, cont)
            else
              (let ind = skip_while (\<lambda>c. c = CHR '' '') data (min endp (start + 4)) start - start
               in if ind = 0 \<and> \<not> (start = id_end + 2 \<and> data ! start = CHR 0x09)
                  then Return (start, cont)
                  else
                    (let contents1 = (if ind \<noteq> 0 \<and> in_empty then cont @ [CHR 0x0A] else cont);
                         contents2 = contents1 @ slice data (start + ind) i1;
                         contents3 = (if i1 < endp then contents2 @ [CHR 0x0A] else contents2);
                         i2 = (if i1 < endp then eol_skip data endp i1 else i1)
                     in Continue (i2, i2, False, contents3)))))"

lemma skip_while_rest:
  "skip_while P data sz i < sz \<Longrightarrow> \<not> P (data ! skip_while P data sz i)"
proof (induction P data sz i rule: skip_while.induct)
  case (1 P data sz i)
  show ?case
  proof (cases "i < sz \<and> P (data ! i)")
    case True
    have eq: "skip_while P data sz i = skip_while P data sz (Suc i)"
      using True by (subst skip_while.simps) simp
    show ?thesis
      using 1(1) [OF True] 1(2) unfolding eq by simp
  next
    case False
    have eq: "skip_while P data sz i = i"
      using False by (subst skip_while.simps) auto
    show ?thesis
      using 1(2) False unfolding eq by simp
  qed
qed

lemma eol_skip_line_end:
  assumes "i < endp"
  shows "i < eol_skip data endp
               (skip_while (\<lambda>c. c \<noteq> CHR 0x0A \<and> c \<noteq> CHR 0x0D) data endp i)"
proof -
  let ?P = "\<lambda>c. c \<noteq> CHR 0x0A \<and> c \<noteq> CHR 0x0D"
  let ?i1 = "skip_while ?P data endp i"
  have ge: "i \<le> ?i1"
    by (rule skip_while_ge)
  have le: "?i1 \<le> endp"
    using assms by (intro skip_while_le) simp
  show ?thesis
  proof (cases "?i1 < endp")
    case True
    then have "\<not> ?P (data ! ?i1)"
      by (rule skip_while_rest)
    then show ?thesis
      using True ge by (auto simp: eol_skip_def)
  next
    case False
    then show ?thesis
      using le ge assms by (simp add: eol_skip_def)
  qed
qed

lemma is_footnote_step_Continue:
  assumes "is_footnote_step data endp id_end (i, start, in_empty, cont) = Continue (i', st')"
    and "i < endp"
  shows "i < i'"
proof -
  let ?i1 = "skip_while (\<lambda>c. c \<noteq> CHR 0x0A \<and> c \<noteq> CHR 0x0D) data endp i"
  have "i' = eol_skip data endp ?i1 \<or> (i' = ?i1 \<and> \<not> ?i1 < endp)"
    using assms(1) by (auto simp: is_footnote_step_def Let_def split: if_splits)
  moreover have "i \<le> ?i1"
    by (rule skip_while_ge)
  moreover have "?i1 \<le> endp"
    using assms(2) by (intro skip_while_le) simp
  ultimately show ?thesis
    using eol_skip_line_end [OF assms(2), of data] assms(2) by auto
qed

function is_footnote_loop ::
  "bytes \<Rightarrow> nat \<Rightarrow> nat \<Rightarrow> nat \<times> nat \<times> bool \<times> bytes \<Rightarrow> nat \<times> bytes" where
  "is_footnote_loop data endp id_end st =
     (if fst st < endp then
        (case is_footnote_step data endp id_end st of
           Return r \<Rightarrow> r
         | Continue st' \<Rightarrow> is_footnote_loop data endp id_end st')
      else (fst (snd st), snd (snd (snd st))))"
  by pat_completeness auto
termination
proof (relation "measure (\<lambda>(data, endp, id_end, st). endp - fst st)", goal_cases)
  case 1
  show ?case by simp
next
  case (2 data endp id_end st st')
  obtain i start in_empty cont where st: "st = (i, start, in_empty, cont)"
    by (cases st) auto
  obtain i' r' where st': "st' = (i', r')"
    by (cases st') auto
  have "i < i'"
    using 2 is_footnote_step_Continue [of data endp id_end i start in_empty cont i' r']
    by (simp add: st st')
  then show ?case
    using 2 by (simp add: st st')
qed

declare is_footnote_loop.simps [simp del]

text \<open>
  \<open>is_footnote\<close> on the line at \<open>beg\<close>, with \<open>list\<close> the list \<open>footnotes_found\<close>: when the line
  opens a footnote definition, the value of \<open>last\<close> and the list with the new entry at its
  end, made by \<open>create_footnote_ref\<close> (zeroed but for the \<open>id\<close>) and \<open>add_footnote_ref\<close>.
\<close>

definition is_footnote ::
  "bytes \<Rightarrow> nat \<Rightarrow> nat \<Rightarrow> footnote_ref list \<Rightarrow> (nat \<times> footnote_ref list) option" where
  "is_footnote data beg endp list =
     (if beg + 3 \<ge> endp then None
      else
        (case ref_indent data beg of
           None \<Rightarrow> None
         | Some ind \<Rightarrow>
             (let i0 = ind + beg
              in if data ! i0 \<noteq> CHR ''['' then None
                 else if i0 + 1 \<ge> endp \<or> data ! (i0 + 1) \<noteq> CHR ''^'' then None
                 else
                   (let id_offset = i0 + 2;
                        id_end = skip_while (\<lambda>c. c \<noteq> CHR 0x0A \<and> c \<noteq> CHR 0x0D \<and> c \<noteq> CHR '']'')
                                   data endp id_offset
                    in if id_end \<ge> endp \<or> data ! id_end \<noteq> CHR '']'' then None
                       else if id_end + 1 \<ge> endp \<or> data ! (id_end + 1) \<noteq> CHR '':'' then None
                       else
                         (case is_footnote_loop data endp id_end
                                 (id_end + 2, id_end + 2, False, []) of
                            (start, text) \<Rightarrow>
                              Some (start,
                                    list @ [\<lparr>fr_id = hash_link_ref (slice data id_offset id_end),
                                             is_used = False, num = 0, contents = text\<rparr>]))))))"

text \<open>
  The optional title of \<open>is_ref\<close>, from \<open>i\<close>: it returns \<open>title_offset\<close>, \<open>title_end\<close> and
  \<open>line_end\<close>.
\<close>

definition is_ref_title :: "bytes \<Rightarrow> nat \<Rightarrow> nat \<Rightarrow> nat \<Rightarrow> nat \<times> nat \<times> nat" where
  "is_ref_title data endp i line_end =
     (if i + 1 < endp \<and> (data ! i = CHR 0x27 \<or> data ! i = CHR 0x22 \<or> data ! i = CHR 0x28) then
        (let title_offset = i + 1;
             j = skip_while (\<lambda>c. c \<noteq> CHR 0x0A \<and> c \<noteq> CHR 0x0D) data endp title_offset;
             title_end = (if j + 1 < endp \<and> data ! j = CHR 0x0A \<and> data ! (j + 1) = CHR 0x0D
                          then j + 1 else j);
             k = back_while_at (\<lambda>c. c = CHR '' '') data title_offset (j - 1)
         in if k > title_offset \<and> (data ! k = CHR 0x27 \<or> data ! k = CHR 0x22 \<or> data ! k = CHR 0x29)
            then (title_offset, k, title_end)
            else (title_offset, title_end, line_end))
      else (0, 0, line_end))"

text \<open>
  \<open>is_ref\<close> on the line at \<open>beg\<close>, with \<open>refs\<close> the table of the parser: when the line is a
  reference definition, the value of \<open>last\<close> and the table with the new entry.
\<close>

definition is_ref ::
  "bytes \<Rightarrow> nat \<Rightarrow> nat \<Rightarrow> link_ref list list \<Rightarrow> (nat \<times> link_ref list list) option" where
  "is_ref data beg endp references =
     (if beg + 3 \<ge> endp then None
      else
        (case ref_indent data beg of
           None \<Rightarrow> None
         | Some ind \<Rightarrow>
             (let i0 = ind + beg
              in if data ! i0 \<noteq> CHR ''['' then None
                 else
                   (let id_offset = i0 + 1;
                        id_end = skip_while (\<lambda>c. c \<noteq> CHR 0x0A \<and> c \<noteq> CHR 0x0D \<and> c \<noteq> CHR '']'')
                                   data endp id_offset
                    in if id_end \<ge> endp \<or> data ! id_end \<noteq> CHR '']'' then None
                       else if id_end + 1 \<ge> endp \<or> data ! (id_end + 1) \<noteq> CHR '':'' then None
                       else
                         (let i3 = skip_while (\<lambda>c. c = CHR '' '') data endp (id_end + 2);
                              i4 = (if i3 < endp \<and> (data ! i3 = CHR 0x0A \<or> data ! i3 = CHR 0x0D) then
                                      (if i3 + 1 < endp \<and> data ! (i3 + 1) = CHR 0x0D
                                          \<and> data ! i3 = CHR 0x0A
                                       then i3 + 2 else i3 + 1)
                                    else i3);
                              i5 = skip_while (\<lambda>c. c = CHR '' '') data endp i4
                          in if i5 \<ge> endp then None
                             else
                               (let link_offset = (if data ! i5 = CHR ''<'' then i5 + 1 else i5);
                                    i7 = skip_while
                                           (\<lambda>c. c \<noteq> CHR '' '' \<and> c \<noteq> CHR 0x0A \<and> c \<noteq> CHR 0x0D)
                                           data endp link_offset;
                                    link_end = (if data ! (i7 - 1) = CHR ''>'' then i7 - 1 else i7);
                                    i8 = skip_while (\<lambda>c. c = CHR '' '') data endp i7
                                in if i8 < endp \<and> data ! i8 \<noteq> CHR 0x0A \<and> data ! i8 \<noteq> CHR 0x0D
                                      \<and> data ! i8 \<noteq> CHR 0x27 \<and> data ! i8 \<noteq> CHR 0x22
                                      \<and> data ! i8 \<noteq> CHR 0x28 then None
                                   else
                                     (let line_end0 =
                                            (if i8 \<ge> endp \<or> data ! i8 = CHR 0x0D \<or> data ! i8 = CHR 0x0A
                                             then i8 else 0);
                                          line_end1 =
                                            (if i8 + 1 < endp \<and> data ! i8 = CHR 0x0A
                                                \<and> data ! (i8 + 1) = CHR 0x0D
                                             then i8 + 1 else line_end0);
                                          i9 = (if line_end1 \<noteq> 0
                                                then skip_while (\<lambda>c. c = CHR '' '') data endp (line_end1 + 1)
                                                else i8)
                                      in case is_ref_title data endp i9 line_end1 of
                                           (title_offset, title_end, line_end) \<Rightarrow>
                                             if line_end = 0 \<or> link_end = link_offset then None
                                             else
                                               Some (line_end,
                                                     is_ref_store references
                                                       (slice data id_offset id_end)
                                                       (slice data link_offset link_end)
                                                       (slice data title_offset title_end)))))))))"

subsection \<open>The first pass\<close>

text \<open>
  \<open>expand_tabs\<close>: the line is copied and each tab becomes the spaces up to the next
  column that is a multiple of four; \<open>tab\<close> is the column.
  \<open>do { putc(ob, ' '); tab++; } while (tab % 4);\<close> writes \<open>4 - tab % 4\<close> spaces.
\<close>

function expand_tabs_loop :: "bytes \<Rightarrow> bytes \<Rightarrow> nat \<Rightarrow> nat \<Rightarrow> bytes" where
  "expand_tabs_loop ob line i tab =
     (if i < length line then
        (let org = i;
             i1 = skip_while (\<lambda>c. c \<noteq> CHR 0x09) line (length line) i;
             tab1 = tab + (i1 - org);
             ob1 = (if i1 > org then ob @ slice line org i1 else ob)
         in if i1 \<ge> length line then ob1
            else expand_tabs_loop (ob1 @ replicate (4 - tab1 mod 4) (CHR '' '')) line (i1 + 1)
                   (tab1 + (4 - tab1 mod 4)))
      else ob)"
  by pat_completeness auto
termination
proof (relation "measure (\<lambda>(ob, line, i, tab). length line - i)", goal_cases)
  case 1
  show ?case by simp
next
  case (2 ob line i tab org i1 tab1 ob1)
  then show ?case
    using skip_while_ge [of i "\<lambda>c. c \<noteq> CHR 0x09" line "length line"] by simp
qed

declare expand_tabs_loop.simps [simp del]

definition expand_tabs :: "bytes \<Rightarrow> bytes \<Rightarrow> bytes" where
  "expand_tabs ob line = expand_tabs_loop ob line 0 0"

text \<open>
  The ends of lines after a line of text: a newline byte adds one newline to \<open>text\<close>, a
  carriage return adds one when a byte other than a newline follows it.
\<close>

function newline_run :: "bytes \<Rightarrow> nat \<Rightarrow> bytes \<Rightarrow> nat \<times> bytes" where
  "newline_run document end0 text =
     (if end0 < length document \<and> (document ! end0 = CHR 0x0A \<or> document ! end0 = CHR 0x0D) then
        newline_run document (end0 + 1)
          (if document ! end0 = CHR 0x0A
              \<or> (end0 + 1 < length document \<and> document ! (end0 + 1) \<noteq> CHR 0x0A)
           then text @ [CHR 0x0A] else text)
      else (end0, text))"
  by pat_completeness auto
termination
  by (relation "measure (\<lambda>(document, end0, text). length document - end0)") auto

declare newline_run.simps [simp del]

text \<open>
  The loop of the first pass over the lines of the document: a footnote definition (when
  footnotes are enabled) or a reference definition is stored, any other line is copied
  to \<open>text\<close>.  The loop runs on the fuel, one unit for each line.
\<close>

primrec first_pass ::
  "nat \<Rightarrow> bool \<Rightarrow> bytes \<Rightarrow> nat \<Rightarrow> bytes \<Rightarrow> 'o hoedown_markdown
     \<Rightarrow> (bytes \<times> 'o hoedown_markdown) option" where
  "first_pass 0 footnotes_enabled document beg text md = None"
| "first_pass (Suc fuel) footnotes_enabled document beg text md =
     (if beg < length document then
        (case (if footnotes_enabled
               then is_footnote document beg (length document) (footnotes_found md) else None) of
           Some (end1, list) \<Rightarrow>
             first_pass fuel footnotes_enabled document end1 text (md\<lparr>footnotes_found := list\<rparr>)
         | None \<Rightarrow>
             (case is_ref document beg (length document) (refs md) of
                Some (end1, references) \<Rightarrow>
                  first_pass fuel footnotes_enabled document end1 text (md\<lparr>refs := references\<rparr>)
              | None \<Rightarrow>
                  (let end0 = skip_while (\<lambda>c. c \<noteq> CHR 0x0A \<and> c \<noteq> CHR 0x0D) document
                                (length document) beg;
                       text1 = (if end0 > beg then expand_tabs text (slice document beg end0)
                                else text)
                   in case newline_run document end0 text1 of (end1, text2) \<Rightarrow>
                        first_pass fuel footnotes_enabled document end1 text2 md)))
      else Some (text, md))"

subsection \<open>Rendering\<close>

definition UTF8_BOM :: bytes where
  "UTF8_BOM = [CHR 0xEF, CHR 0xBB, CHR 0xBF]"

text \<open>
  \<open>hoedown_markdown_render\<close>: the table of references and, when footnotes are enabled,
  the two lists of footnotes are emptied; the first pass; then \<open>doc_header\<close>, the blocks
  of the text, the footnotes and \<open>doc_footer\<close>.  The result is the output buffer and the
  parser at the point where the source frees the text, the references and the footnotes.
  The two \<open>assert\<close>s on the sizes of the pools that end the function are not steps of the
  model: they are what is proved of it below.
\<close>

definition hoedown_markdown_render ::
  "autolink_scanners \<Rightarrow> (bytes \<Rightarrow> bytes option) \<Rightarrow> nat \<Rightarrow> bytes \<Rightarrow> bytes
     \<Rightarrow> 'o hoedown_markdown \<Rightarrow> (bytes \<times> 'o hoedown_markdown) option" where
  "hoedown_markdown_render sc find_block_tag fuel ob document md =
     (let footnotes_enabled = (HOEDOWN_EXT_FOOTNOTES \<in> ext_flags md);
          md0 = md\<lparr>refs := refs_empty\<rparr>;
          md1 = (if footnotes_enabled then md0\<lparr>footnotes_found := [], footnotes_used := []\<rparr>
                 else md0);
          beg = (if length document \<ge> 3 \<and> take 3 document = UTF8_BOM then 3 else 0)
      in case first_pass fuel footnotes_enabled document beg [] md1 of
           None \<Rightarrow> None
         | Some (text, md2) \<Rightarrow>
             (case call_opt (doc_header (rndr md2)) ob () md2 of (ob1, md3) \<Rightarrow>
                (case (if text \<noteq> [] then
                         parse_block sc find_block_tag fuel ob1 md3
                           (if last text \<noteq> CHR 0x0A \<and> last text \<noteq> CHR 0x0D
                            then text @ [CHR 0x0A] else text)
                       else Some (ob1, md3)) of
                   None \<Rightarrow> None
                 | Some (ob2, md4) \<Rightarrow>
                     (case (if footnotes_enabled
                            then parse_footnote_list fuel (parse_block sc find_block_tag fuel) ob2 md4
                            else Some (ob2, md4)) of
                        None \<Rightarrow> None
                      | Some (ob3, md5) \<Rightarrow> Some (call_opt (doc_footer (rndr md5)) ob3 () md5)))))"

subsection \<open>The sizes of the pools\<close>

text \<open>
  The predicates in which the balance of \<open>newbuf\<close> and \<open>popbuf\<close> is stated.
\<close>

text \<open>The number of buffers in use, over both pools.\<close>

definition pool_depth :: "'o hoedown_markdown \<Rightarrow> nat" where
  "pool_depth md = unat (work_bufs md BUFFER_SPAN) + unat (work_bufs md BUFFER_BLOCK)"

text \<open>
  Two states of the parser with the same number of buffers in use in each pool, and the
  same bound.
\<close>

definition same_pools :: "'o hoedown_markdown \<Rightarrow> 'o hoedown_markdown \<Rightarrow> bool" where
  "same_pools md md' = (work_bufs md' = work_bufs md \<and> max_nesting md' = max_nesting md)"

text \<open>
  The nesting bound is small enough for the sizes of the pools to go through the cast
  \<open>(int)org_work_size\<close> of \<open>char_link\<close> unchanged.
\<close>

definition small_nesting :: "'o hoedown_markdown \<Rightarrow> bool" where
  "small_nesting md = (unat (max_nesting md) + 8 < 2 ^ 31)"

text \<open>
  A parser that gives back every buffer it borrows, when it is entered with at most four
  buffers over the bound.
\<close>

definition pool_safe :: "'o inline_parser \<Rightarrow> bool" where
  "pool_safe rec = (\<forall>ob md data ob' md'.
     small_nesting md \<and> pool_depth md \<le> unat (max_nesting md) + 4 \<and> rec ob md data = Some (ob', md')
       \<longrightarrow> same_pools md md')"

text \<open>The same of a handler of the inline scanner, which is called inside the bound.\<close>

definition handler_safe :: "'o char_trigger \<Rightarrow> bool" where
  "handler_safe h = (\<forall>ob md txt offset ob' md' n.
     small_nesting md \<and> pool_depth md \<le> unat (max_nesting md) \<and> h ob md txt offset = Some (ob', md', n)
       \<longrightarrow> same_pools md md')"

text \<open>The state \<open>md'\<close> differs from \<open>md\<close>, in its pools, in the size of the span pool only.\<close>

definition span_only :: "'o hoedown_markdown \<Rightarrow> 'o hoedown_markdown \<Rightarrow> bool" where
  "span_only md md' =
     ((\<exists>v. work_bufs md' = (work_bufs md)(BUFFER_SPAN := v)) \<and> max_nesting md' = max_nesting md)"

text \<open>
  A result of \<open>char_link\<close>: the span pool is back at \<open>org\<close>, the rest of the pools as in
  \<open>md\<close>.
\<close>

definition span_reset :: "64 word \<Rightarrow> 'o hoedown_markdown \<Rightarrow> 'o hoedown_markdown \<Rightarrow> bool" where
  "span_reset org md md' =
     (work_bufs md' = (work_bufs md)(BUFFER_SPAN := scast (ucast org :: 32 word))
      \<and> max_nesting md' = max_nesting md)"

text \<open>At most \<open>k\<close> buffers in use over the bound, the bound being small.\<close>

definition pool_within :: "nat \<Rightarrow> 'o hoedown_markdown \<Rightarrow> bool" where
  "pool_within k md = (small_nesting md \<and> pool_depth md \<le> unat (max_nesting md) + k)"


section \<open>Example renderers\<close>

text \<open>
  Renderers and scanners for the concrete runs below.  \<open>null_renderer\<close> has no callback;
  \<open>text_renderer\<close> has a \<open>normal_text\<close> that appends its input; \<open>example_renderer\<close>
  writes each construct as a tag around its content, a null buffer as \<open>NULL\<close>.
  \<open>example_scanners\<close> stands for autolink.c: its \<open>www\<close> scanner takes the bytes from
  \<open>www.\<close> up to the next space and rewinds nothing, the other two find nothing.
\<close>

definition null_renderer :: "unit hoedown_renderer" where
  "null_renderer =
     \<lparr>autolink = None, codespan = None, double_emphasis = None, emphasis = None,
      underline = None, highlight = None, quote = None, image_cb = None, linebreak = None,
      link = None, raw_html_tag = None, triple_emphasis = None, strikethrough = None,
      superscript = None, footnote_ref_cb = None, entity = None, normal_text = None,
      blockcode = None, blockquote = None, blockhtml = None, header = None, hrule = None,
      list_cb = None, listitem = None, paragraph_cb = None, table = None, table_row = None,
      table_cell = None, footnotes = None, footnote_def = None, doc_header = None,
      doc_footer = None\<rparr>"

definition text_renderer :: "unit hoedown_renderer" where
  "text_renderer = null_renderer\<lparr>normal_text := Some (\<lambda>ob work opq. (ob @ work, opq))\<rparr>"

definition show_buf :: "bytes option \<Rightarrow> bytes" where
  "show_buf b = (case b of None \<Rightarrow> ''NULL'' | Some x \<Rightarrow> x)"

definition html_tag :: "bytes \<Rightarrow> (bytes, unit) span_cb" where
  "html_tag t = (\<lambda>ob work opq. (ob @ ''<'' @ t @ ''>'' @ work @ ''</'' @ t @ ''>'', opq, True))"

definition example_renderer :: "unit hoedown_renderer" where
  "example_renderer = null_renderer
     \<lparr>emphasis := Some (html_tag ''em''),
      double_emphasis := Some (html_tag ''strong''),
      codespan := Some (\<lambda>ob work opq. (ob @ ''<code>'' @ show_buf work @ ''</code>'', opq, True)),
      linebreak := Some (\<lambda>ob u opq. (ob @ ''<br>'', opq, True)),
      superscript := Some (html_tag ''sup''),
      link := Some (\<lambda>ob (l, t, c) opq.
                (ob @ ''<a href='' @ show_buf l @ ''>'' @ show_buf c @ ''</a>'', opq, True))\<rparr>"

text \<open>A renderer whose line break and code span callbacks decline and write nothing.\<close>

definition declining_renderer :: "unit hoedown_renderer" where
  "declining_renderer = null_renderer
     \<lparr>codespan := Some (\<lambda>ob work opq. (ob, opq, False)),
      linebreak := Some (\<lambda>ob u opq. (ob, opq, False))\<rparr>"



definition example_www :: autolink_scanner where
  "example_www txt offset =
     (if take 4 (drop offset txt) = ''www.''
      then (let l = takeWhile (\<lambda>c. c \<noteq> CHR '' '') (drop offset txt) in (length l, 0, l))
      else (0, 0, []))"

definition example_scanners :: autolink_scanners where
  "example_scanners =
     \<lparr>hoedown_autolink_www = example_www,
      hoedown_autolink_email = (\<lambda>txt offset. (0, 0, [])),
      hoedown_autolink_url = (\<lambda>txt offset. (0, 0, []))\<rparr>"

text \<open>
  For the block level: \<open>example_block_tag\<close> stands for \<open>hoedown_find_block_tag\<close> with a
  table of four tags, and \<open>example_block_renderer\<close> writes each block as a tag around its
  content.
\<close>

definition example_block_tag :: "bytes \<Rightarrow> bytes option" where
  "example_block_tag name =
     (if map tolower name \<in> {''div'', ''p'', ''ins'', ''del''} then Some (map tolower name) else None)"


definition wrap :: "bytes \<Rightarrow> bytes \<Rightarrow> bytes" where
  "wrap t work = ''<'' @ t @ ''>'' @ work @ ''</'' @ t @ ''>''"

definition example_block_renderer :: "unit hoedown_renderer" where
  "example_block_renderer = example_renderer
     \<lparr>normal_text := Some (\<lambda>ob work opq. (ob @ work, opq)),
      blockcode := Some (\<lambda>ob (work, lang) opq. (ob @ wrap ''pre'' work, opq)),
      blockquote := Some (\<lambda>ob work opq. (ob @ wrap ''blockquote'' work, opq)),
      blockhtml := Some (\<lambda>ob work opq. (ob @ work, opq)),
      header := Some (\<lambda>ob (work, level) opq. (ob @ wrap (if level = 1 then ''h1'' else ''hn'') work, opq)),
      hrule := Some (\<lambda>ob u opq. (ob @ ''<hr>'', opq)),
      list_cb := Some (\<lambda>ob (work, flags) opq.
                   (ob @ wrap (if HOEDOWN_LIST_ORDERED \<in> flags then ''ol'' else ''ul'') work, opq)),
      listitem := Some (\<lambda>ob (work, flags) opq. (ob @ wrap ''li'' work, opq)),
      paragraph_cb := Some (\<lambda>ob work opq. (ob @ wrap ''p'' work, opq)),
      table := Some (\<lambda>ob (h, b) opq. (ob @ wrap ''table'' (h @ b), opq)),
      table_row := Some (\<lambda>ob work opq. (ob @ wrap ''tr'' work, opq)),
      table_cell := Some (\<lambda>ob (work, flags) opq.
                      (ob @ wrap (if HOEDOWN_TABLE_HEADER \<in> flags then ''th'' else ''td'') work, opq)),
      footnotes := Some (\<lambda>ob work opq. (ob @ wrap ''fn'' work, opq)),
      footnote_def := Some (\<lambda>ob (work, n) opq. (ob @ wrap ''fd'' work, opq)),
      doc_header := Some (\<lambda>ob u opq. (ob @ ''<doc>'', opq)),
      doc_footer := Some (\<lambda>ob u opq. (ob @ ''</doc>'', opq))\<rparr>"

text \<open>
  A recursive parser that only reports whether it was entered above the nesting bound.
\<close>

definition depth_probe :: "unit inline_parser" where
  "depth_probe ob md data = Some (ob @ (if nesting_exceeded md then ''over'' else ''within''), md)"

text \<open>Stripping the spaces at both ends of a byte string; null when nothing is left.\<close>

definition trim_spaces :: "bytes \<Rightarrow> bytes option" where
  "trim_spaces mid =
     (let t = rev (dropWhile (\<lambda>c. c = CHR '' '') (rev (dropWhile (\<lambda>c. c = CHR '' '') mid)))
      in if t = [] then None else Some t)"

text \<open>The definitions that a concrete run unfolds.\<close>

lemmas hoedown_eval =
  tolower_def isalnum_def isspace_md_def hash_link_ref_def add_link_ref_def find_link_ref_def
  is_ref_store_def refs_empty_def pass1_refs_def REF_TABLE_SIZE_def find_footnote_ref_def
  BUFFER_BLOCK_def BUFFER_SPAN_def newbuf_def popbuf_def nesting_exceeded_def call_span_def
  call_void_def slice_def skip_while.simps unscape_text_loop.simps unscape_text_def
  put_normal_text_def char_linebreak_def find_delim.simps char_delimited_def char_codespan_def
  char_quote_def strchr_found_def escape_chars_def char_escape_def char_entity_def
  sup_paren_scan.simps char_superscript_body_def char_superscript_def scan_to.simps
  bt_scan.simps find_emph_char_step_def find_emph_char_loop.simps find_emph_char_def
  render_emph_def parse_emph1_step_def parse_emph1_loop.simps parse_emph1_def
  parse_emph2_step_def parse_emph2_loop.simps parse_emph2_def sub_ret_def parse_emph3_step_def
  parse_emph3_loop.simps parse_emph3_def add_ret_def char_emphasis_def is_mail_autolink_def
  tag_autolink_end.simps byte_at_def tag_close_def tag_length_def char_langle_tag_def
  rewind_ob_def char_autolink_www_def char_autolink_plain_def char_autolink_email_def
  char_autolink_url_def link_text_end.simps link_dest_end.simps link_title_end.simps
  nl_to_space.simps char_link_cleanup_def link_text_id_def char_link_render_def
  char_link_footnote_def char_link_inline_def char_link_reference_def char_link_shortcut_def
  char_link_def markdown_char_ptrs_def parse_inline_step_def parse_inline_loop.simps
  parse_inline_body_def new_active_char_def hoedown_markdown_new_def
  null_renderer_def text_renderer_def show_buf_def html_tag_def example_renderer_def
  declining_renderer_def example_www_def example_scanners_def depth_probe_def

lemmas block_eval =
  is_empty_loop.simps is_empty_def indent3_def is_hrule_loop.simps is_hrule_def
  prefix_codefence_def is_codefence_def is_atxheader_def is_headerline_def
  is_next_headerline_def skip_space_def prefix_quote_def prefix_code_def is_digit_def
  prefix_oli_def prefix_uli_def next_line.simps call_opt_def htmlblock_end_tag_def
  html_scan.simps htmlblock_end_loop.simps htmlblock_end_def html_comment_end.simps
  html_rendered_def parse_htmlblock_def parse_atxheader_def blockquote_lines.simps
  parse_blockquote_def paragraph_break_def paragraph_end.simps render_paragraph_def
  parse_paragraph_def put_code_line_def fencedcode_lines.simps parse_fencedcode_def
  blockcode_lines.simps parse_blockcode_def parse_listitem_step_def parse_listitem_loop.simps
  parse_listitem_def parse_list_loop.simps parse_list_def parse_footnote_def_def
  parse_footnote_list_def call_req_def table_cells.simps table_empty_cells.simps
  parse_table_row_def table_underline_step_def table_underline.simps parse_table_header_def
  table_rows.simps parse_table_def parse_block_one_def parse_block_body_def
  example_block_tag_def wrap_def example_block_renderer_def

section \<open>Properties of the reference table\<close>

lemma tolower_idem: "tolower (tolower c) = tolower c"
  by (simp add: tolower_def Let_def)

lemma hash_link_ref_loop_tolower:
  "hash_link_ref_loop h (map tolower xs) = hash_link_ref_loop h xs"
  by (induction xs arbitrary: h) (simp_all add: tolower_idem)

lemma hash_link_ref_tolower: "hash_link_ref (map tolower xs) = hash_link_ref xs"
  by (simp add: hash_link_ref_def hash_link_ref_loop_tolower)

lemma hash_link_ref_case_fold:
  assumes "map tolower a = map tolower b"
  shows "hash_link_ref a = hash_link_ref b"
proof -
  have "hash_link_ref a = hash_link_ref (map tolower a)"
    by (simp add: hash_link_ref_tolower)
  also have "\<dots> = hash_link_ref (map tolower b)"
    using assms by simp
  finally show ?thesis
    by (simp add: hash_link_ref_tolower)
qed

text \<open>The chains of a table, seen as one association from bucket and hash to entry.\<close>

definition bucket_of :: "32 word \<Rightarrow> nat" where
  "bucket_of h = unat h mod REF_TABLE_SIZE"

lemma bucket_of_less: "bucket_of h < 8"
  by (simp add: bucket_of_def REF_TABLE_SIZE_def)

lemma is_ref_store_length: "length (is_ref_store rs name l t) = length rs"
  by (simp add: is_ref_store_def add_link_ref_def Let_def)

lemma is_ref_store_chain:
  assumes "length rs = 8"
  shows "is_ref_store rs name l t ! k =
     (if k = bucket_of (hash_link_ref name) then ref_entry (name, l, t) # rs ! k else rs ! k)"
  using assms bucket_of_less [of "hash_link_ref name"]
  by (auto simp: is_ref_store_def add_link_ref_def Let_def ref_entry_def bucket_of_def)

lemma pass1_refs_length: "length (pass1_refs defs) = 8"
proof -
  have "length (foldl (\<lambda>rs (name, l, t). is_ref_store rs name l t) r defs) = length r"
    for r
    by (induction defs arbitrary: r) (auto simp: is_ref_store_length)
  then show ?thesis
    by (simp add: pass1_refs_def refs_empty_def REF_TABLE_SIZE_def)
qed

lemma pass1_refs_snoc:
  "pass1_refs (defs @ [d]) = (case d of (name, l, t) \<Rightarrow> is_ref_store (pass1_refs defs) name l t)"
  by (simp add: pass1_refs_def)

text \<open>Each chain holds, newest first, the definitions whose hash falls in its bucket.\<close>

lemma pass1_refs_chain:
  "k < 8 \<Longrightarrow> pass1_refs defs ! k =
     map ref_entry (filter (\<lambda>d. bucket_of (hash_link_ref (fst d)) = k) (rev defs))"
proof (induction defs rule: rev_induct)
  case Nil
  then show ?case
    by (simp add: pass1_refs_def refs_empty_def REF_TABLE_SIZE_def)
next
  case (snoc d defs)
  obtain name l t where d: "d = (name, l, t)"
    by (cases d)
  show ?case
    using snoc
    by (auto simp: pass1_refs_snoc d is_ref_store_chain pass1_refs_length)
qed

lemma find_link_ref_chain_map:
  "find_link_ref_chain (map ref_entry ds) h =
     map_option ref_entry (find (\<lambda>d. hash_link_ref (fst d) = h) ds)"
  by (induction ds) (auto simp: ref_entry_def)

lemma find_filter_bucket:
  "find (\<lambda>d. hash_link_ref (fst d) = h)
      (filter (\<lambda>d. bucket_of (hash_link_ref (fst d)) = bucket_of h) ds)
   = find (\<lambda>d. hash_link_ref (fst d) = h) ds"
  by (induction ds) auto

text \<open>Lookup returns the newest definition whose hash is the hash of the query.\<close>

lemma find_link_ref_pass1:
  "find_link_ref (pass1_refs defs) name =
     map_option ref_entry (find (\<lambda>d. hash_link_ref (fst d) = hash_link_ref name) (rev defs))"
proof -
  let ?h = "hash_link_ref name"
  have "find_link_ref (pass1_refs defs) name =
      find_link_ref_chain (pass1_refs defs ! bucket_of ?h) ?h"
    by (simp add: find_link_ref_def bucket_of_def Let_def)
  also have "\<dots> = find_link_ref_chain
      (map ref_entry (filter (\<lambda>d. bucket_of (hash_link_ref (fst d)) = bucket_of ?h) (rev defs))) ?h"
    by (simp add: pass1_refs_chain bucket_of_less)
  also have "\<dots> = map_option ref_entry (find (\<lambda>d. hash_link_ref (fst d) = ?h) (rev defs))"
    by (simp add: find_link_ref_chain_map find_filter_bucket)
  finally show ?thesis .
qed

lemma find_append_cases:
  "find P (xs @ ys) = (case find P xs of None \<Rightarrow> find P ys | Some x \<Rightarrow> Some x)"
  by (induction xs) auto

lemma find_None_iff_set: "(find P xs = None) = (\<forall>x\<in>set xs. \<not> P x)"
  by (induction xs) auto

text \<open>
  C1.  Inline reference resolution compares hashes only.  For the table left by pass 1 and
  every query name, \<open>find_link_ref\<close> returns an entry exactly when some stored
  definition has the hash of the query, and the entry returned then carries exactly that
  hash, whatever the bytes of the two names.  Two names that differ only in the case of
  ASCII letters have the same hash, so \<open>[text][FOO]\<close> and \<open>[text][foo]\<close> resolve to the
  same entry.
\<close>

theorem find_link_ref_hash_only:
  "(find_link_ref (pass1_refs defs) name \<noteq> None)
      = (\<exists>d \<in> set defs. hash_link_ref (fst d) = hash_link_ref name)
   \<and> (\<forall>r. find_link_ref (pass1_refs defs) name = Some r \<longrightarrow> lr_id r = hash_link_ref name)
   \<and> (\<forall>name'. hash_link_ref name' = hash_link_ref name \<longrightarrow>
         find_link_ref rs name' = find_link_ref rs name)
   \<and> (\<forall>name'. map tolower name' = map tolower name \<longrightarrow>
         hash_link_ref name' = hash_link_ref name
         \<and> find_link_ref rs name' = find_link_ref rs name)"
proof (intro conjI allI impI)
  show "(find_link_ref (pass1_refs defs) name \<noteq> None)
      = (\<exists>d \<in> set defs. hash_link_ref (fst d) = hash_link_ref name)"
    by (simp add: find_link_ref_pass1 find_None_iff_set)
next
  fix r
  assume "find_link_ref (pass1_refs defs) name = Some r"
  then obtain d where "find (\<lambda>d. hash_link_ref (fst d) = hash_link_ref name) (rev defs) = Some d"
    and r: "r = ref_entry d"
    by (auto simp: find_link_ref_pass1)
  then have "hash_link_ref (fst d) = hash_link_ref name"
    by (auto simp: find_Some_iff)
  then show "lr_id r = hash_link_ref name"
    by (auto simp: r ref_entry_def split: prod.splits)
next
  fix name'
  assume "hash_link_ref name' = hash_link_ref name"
  then show "find_link_ref rs name' = find_link_ref rs name"
    by (simp add: find_link_ref_def)
next
  fix name'
  assume "map tolower name' = map tolower name"
  then show "hash_link_ref name' = hash_link_ref name"
    by (rule hash_link_ref_case_fold)
next
  fix name'
  assume "map tolower name' = map tolower name"
  then have "hash_link_ref name' = hash_link_ref name"
    by (rule hash_link_ref_case_fold)
  then show "find_link_ref rs name' = find_link_ref rs name"
    by (simp add: find_link_ref_def)
qed

theorem find_link_ref_hash_only_witness:
  "find_link_ref (pass1_refs [(''foo'', ''http://e'', ''t'')]) ''FOO''
     = Some \<lparr>lr_id = 849955110, lr_link = Some ''http://e'', lr_title = Some ''t''\<rparr>
   \<and> find_link_ref (pass1_refs [(''foo'', ''http://e'', ''t'')]) ''FOO''
     = find_link_ref (pass1_refs [(''foo'', ''http://e'', ''t'')]) ''foo''
   \<and> find_link_ref (pass1_refs [(''foo'', ''http://e'', ''t'')]) ''bar'' = None"
proof -
  let ?defs = "[(''foo'', ''http://e'', ''t'')]"
  note H = find_link_ref_hash_only [of ?defs]
  have h: "hash_link_ref ''FOO'' = 849955110" "hash_link_ref ''foo'' = 849955110"
    "hash_link_ref ''bar'' \<noteq> 849955110"
    by (simp_all add: hash_link_ref_def tolower_def)
  have fold: "map tolower ''FOO'' = map tolower ''foo''"
    by code_simp
  have same: "find_link_ref (pass1_refs ?defs) ''FOO'' = find_link_ref (pass1_refs ?defs) ''foo''"
    using H [of "''foo''" "pass1_refs ?defs"] fold by blast
  have "(find_link_ref (pass1_refs ?defs) ''bar'' \<noteq> None)
      = (\<exists>d \<in> set ?defs. hash_link_ref (fst d) = hash_link_ref ''bar'')"
    by (rule H [of "''bar''" refs_empty, THEN conjunct1])
  then have bar: "find_link_ref (pass1_refs ?defs) ''bar'' = None"
    using h by simp
  have foo: "find_link_ref (pass1_refs ?defs) ''foo''
      = Some \<lparr>lr_id = 849955110, lr_link = Some ''http://e'', lr_title = Some ''t''\<rparr>"
    using h by (simp add: find_link_ref_pass1 ref_entry_def)
  show ?thesis
    by (simp only: same foo bar simp_thms)
qed

text \<open>
  C2 as stated fails: the chain is extended at its head and searched from its head, so of
  two definitions with one hash the later one answers.  Here \<open>[foo]\<close> is defined first and
  \<open>[FOO]\<close> second; both identifiers resolve to the second link.
\<close>

theorem first_inserted_wins_counterexample:
  "map_option lr_link
      (find_link_ref (pass1_refs [(''foo'', ''http://first'', []), (''FOO'', ''http://second'', [])]) ''foo'')
     = Some (Some ''http://second'')
   \<and> map_option lr_link
      (find_link_ref (pass1_refs [(''foo'', ''http://first'', []), (''FOO'', ''http://second'', [])]) ''FOO'')
     = Some (Some ''http://second'')
   \<and> ''foo'' \<noteq> ''FOO''
   \<and> hash_link_ref ''foo'' = hash_link_ref ''FOO''"
  by (simp add: find_link_ref_pass1 ref_entry_def hash_link_ref_def tolower_def)

text \<open>
  C2, amended.  For two definitions of pass 1 whose identifiers have the same hash, with
  no later definition of that hash, an inline reference using either identifier resolves
  to the definition that was inserted last.
\<close>

theorem last_inserted_wins:
  assumes "defs = before @ [(n1, l1, t1)] @ between @ [(n2, l2, t2)] @ after"
    and "hash_link_ref n1 = hash_link_ref n2"
    and "\<forall>d \<in> set after. hash_link_ref (fst d) \<noteq> hash_link_ref n2"
  shows "find_link_ref (pass1_refs defs) n1 = Some (ref_entry (n2, l2, t2))
       \<and> find_link_ref (pass1_refs defs) n2 = Some (ref_entry (n2, l2, t2))"
proof -
  have none: "find (\<lambda>d. hash_link_ref (fst d) = hash_link_ref n2) (rev after) = None"
    using assms(3) by (simp add: find_None_iff_set)
  have "find (\<lambda>d. hash_link_ref (fst d) = hash_link_ref n2) (rev defs) = Some (n2, l2, t2)"
    by (simp add: assms(1) find_append_cases none)
  then show ?thesis
    by (simp add: find_link_ref_pass1 assms(2))
qed

theorem last_inserted_wins_witness:
  "find_link_ref (pass1_refs [(''foo'', ''http://first'', []), (''FOO'', ''http://second'', [])]) ''foo''
     = Some (ref_entry (''FOO'', ''http://second'', []))
   \<and> find_link_ref (pass1_refs [(''foo'', ''http://first'', []), (''FOO'', ''http://second'', [])]) ''FOO''
     = Some (ref_entry (''FOO'', ''http://second'', []))"
proof -
  have h: "hash_link_ref ''foo'' = hash_link_ref ''FOO''"
    by (simp add: hash_link_ref_def tolower_def)
  show ?thesis
    using last_inserted_wins [of "[(''foo'', ''http://first'', []), (''FOO'', ''http://second'', [])]"
        "[]" "''foo''" "''http://first''" "[]" "[]" "''FOO''" "''http://second''" "[]" "[]"] h
    by simp
qed

section \<open>Properties of the scanning loops\<close>

lemma skip_while_stop: "\<not> (i < sz \<and> P (data ! i)) \<Longrightarrow> skip_while P data sz i = i"
  by (subst skip_while.simps) auto

lemma skip_while_takeWhile:
  "i \<le> sz \<Longrightarrow> sz \<le> length data \<Longrightarrow>
   skip_while P data sz i = i + length (takeWhile P (drop i (take sz data)))"
proof (induction P data sz i rule: skip_while.induct)
  case (1 P data sz i)
  show ?case
  proof (cases "i < sz \<and> P (data ! i)")
    case True
    then have d: "drop i (take sz data) = data ! i # drop (Suc i) (take sz data)"
      using 1(3) Cons_nth_drop_Suc [of i "take sz data"] by simp
    have "skip_while P data sz i = skip_while P data sz (Suc i)"
      using True by (subst skip_while.simps) simp
    also have "\<dots> = Suc i + length (takeWhile P (drop (Suc i) (take sz data)))"
      using 1 True by simp
    finally show ?thesis
      using True d by simp
  next
    case False
    then have s: "skip_while P data sz i = i"
      by (rule skip_while_stop)
    show ?thesis
    proof (cases "i < sz")
      case True
      then have d: "drop i (take sz data) = data ! i # drop (Suc i) (take sz data)"
        using 1(3) Cons_nth_drop_Suc [of i "take sz data"] by simp
      then show ?thesis
        using s False True by simp
    next
      case False
      then show ?thesis
        using s 1(2) by simp
    qed
  qed
qed

lemma back_while_takeWhile:
  "lo \<le> j \<Longrightarrow> j \<le> length data \<Longrightarrow>
   back_while P data lo j = j - length (takeWhile P (rev (drop lo (take j data))))"
proof (induction j)
  case 0
  then show ?case by simp
next
  case (Suc j)
  show ?case
  proof (cases "lo \<le> j")
    case False
    then have "lo = Suc j"
      using Suc.prems by simp
    then show ?thesis
      by simp
  next
    case True
    have t: "take (Suc j) data = take j data @ [data ! j]"
      using Suc.prems by (simp add: take_Suc_conv_app_nth)
    have r: "rev (drop lo (take (Suc j) data)) = data ! j # rev (drop lo (take j data))"
      using True Suc.prems by (simp add: t)
    show ?thesis
    proof (cases "P (data ! j)")
      case False
      then show ?thesis
        using True r by simp
    next
      case p: True
      have "length (takeWhile P (rev (drop lo (take j data)))) \<le> j - lo"
        using Suc.prems by (rule_tac order_trans [OF length_takeWhile_le]) simp
      then show ?thesis
        using True p r Suc by simp
    qed
  qed
qed

lemma find_delim_stop: "\<not> (endp < length data \<and> i < nb) \<Longrightarrow> find_delim d data nb endp i = (endp, i)"
  by (subst find_delim.simps) auto

lemma find_delim_next:
  "endp < length data \<Longrightarrow> i < nb \<Longrightarrow>
   find_delim d data nb endp i = find_delim d data nb (Suc endp) (if data ! endp = d then Suc i else 0)"
  by (subst find_delim.simps) simp

lemma find_delim_run:
  "i + m = nb \<Longrightarrow> find_delim d (pre @ replicate m d @ post) nb (length pre) i = (length pre + m, nb)"
proof (induction m arbitrary: pre i)
  case 0
  then show ?case
    by (simp add: find_delim_stop)
next
  case (Suc m)
  have "find_delim d (pre @ replicate (Suc m) d @ post) nb (length pre) i
      = find_delim d (pre @ replicate (Suc m) d @ post) nb (Suc (length pre)) (Suc i)"
    using Suc.prems by (subst find_delim_next) (simp_all add: nth_append)
  also have "\<dots> = find_delim d ((pre @ [d]) @ replicate m d @ post) nb (length (pre @ [d])) (Suc i)"
    by simp
  also have "\<dots> = (length (pre @ [d]) + m, nb)"
    using Suc.prems by (intro Suc.IH) simp
  finally show ?case
    by simp
qed

lemma find_delim_through:
  assumes "mid \<noteq> []" and "last mid \<noteq> d"
    and "\<forall>k. take n (drop k mid) \<noteq> replicate n d"
    and "i + length (takeWhile (\<lambda>x. x = d) mid) < n"
  shows "find_delim d (pre @ mid @ post) n (length pre) i
       = find_delim d (pre @ mid @ post) n (length pre + length mid) 0"
  using assms
proof (induction mid arbitrary: pre i)
  case Nil
  then show ?case by simp
next
  case (Cons x xs)
  have i: "i < n"
    using Cons.prems(4) by simp
  have step: "find_delim d (pre @ (x # xs) @ post) n (length pre) i
      = find_delim d ((pre @ [x]) @ xs @ post) n (length (pre @ [x])) (if x = d then Suc i else 0)"
    using i by (subst find_delim_next) (simp_all add: nth_append)
  show ?case
  proof (cases "xs = []")
    case True
    then have "x \<noteq> d"
      using Cons.prems(2) by simp
    then show ?thesis
      using step True by simp
  next
    case False
    have l: "last xs \<noteq> d"
      using Cons.prems(2) False by simp
    have norun: "\<forall>k. take n (drop k xs) \<noteq> replicate n d"
    proof
      fix k
      show "take n (drop k xs) \<noteq> replicate n d"
        using Cons.prems(3) [rule_format, of "Suc k"] by simp
    qed
    have lead: "length (takeWhile (\<lambda>x. x = d) xs) < n"
    proof (rule ccontr)
      assume "\<not> length (takeWhile (\<lambda>x. x = d) xs) < n"
      then have ge: "n \<le> length (takeWhile (\<lambda>x. x = d) xs)"
        by simp
      have "take n xs = take n (takeWhile (\<lambda>x. x = d) xs @ dropWhile (\<lambda>x. x = d) xs)"
        by simp
      also have "\<dots> = take n (takeWhile (\<lambda>x. x = d) xs)"
        using ge by (simp del: takeWhile_dropWhile_id)
      also have "\<dots> = replicate n d"
      proof (rule replicate_eqI)
        show "length (take n (takeWhile (\<lambda>x. x = d) xs)) = n"
          using ge by simp
        fix y
        assume "y \<in> set (take n (takeWhile (\<lambda>x. x = d) xs))"
        then have "y \<in> set (takeWhile (\<lambda>x. x = d) xs)"
          by (rule in_set_takeD)
        then show "y = d"
          by (rule set_takeWhileD [THEN conjunct2])
      qed
      finally show False
        using norun [rule_format, of 0] by simp
    qed
    have cnt: "(if x = d then Suc i else 0) + length (takeWhile (\<lambda>x. x = d) xs) < n"
      using Cons.prems(4) lead by (simp split: if_splits)
    have "find_delim d ((pre @ [x]) @ xs @ post) n (length (pre @ [x])) (if x = d then Suc i else 0)
        = find_delim d ((pre @ [x]) @ xs @ post) n (length (pre @ [x]) + length xs) 0"
      using False l norun cnt by (rule Cons.IH)
    then show ?thesis
      using step by simp
  qed
qed


lemma skip_while_all:
  "i \<le> sz \<Longrightarrow> \<forall>k. i \<le> k \<and> k < sz \<longrightarrow> P (data ! k) \<Longrightarrow> skip_while P data sz i = sz"
proof (induction P data sz i rule: skip_while.induct)
  case (1 P data sz i)
  show ?case
  proof (cases "i < sz")
    case True
    then have "P (data ! i)"
      using 1(3) by simp
    then have "skip_while P data sz i = skip_while P data sz (Suc i)"
      using True by (subst skip_while.simps) simp
    also have "\<dots> = sz"
      using 1 True \<open>P (data ! i)\<close> by simp
    finally show ?thesis .
  next
    case False
    then show ?thesis
      using 1(2) by (subst skip_while.simps) simp
  qed
qed

lemma sup_paren_scan_stop:
  "\<not> (k < length data \<and> data ! k \<noteq> CHR 0x29 \<and> data ! (k - 1) \<noteq> CHR 0x5C)
     \<Longrightarrow> sup_paren_scan data k = k"
  by (subst sup_paren_scan.simps) auto

lemma no_run_if_absent:
  assumes "d \<notin> set mid" and "n > 0"
  shows "\<forall>k. take n (drop k mid) \<noteq> replicate n d"
proof
  fix k
  show "take n (drop k mid) \<noteq> replicate n d"
  proof
    assume eq: "take n (drop k mid) = replicate n d"
    have "d \<in> set (replicate n d)"
      using assms(2) by simp
    then have "d \<in> set (take n (drop k mid))"
      using eq by simp
    then have "d \<in> set mid"
      by (meson in_set_dropD in_set_takeD)
    then show False
      using assms(1) by simp
  qed
qed

lemma length_takeWhile_less_ex: "x \<in> set xs \<Longrightarrow> \<not> P x \<Longrightarrow> length (takeWhile P xs) < length xs"
  by (induction xs) auto

lemma trim_spaces_take_drop:
  "trim_spaces mid =
     (let l = length (takeWhile (\<lambda>c. c = CHR '' '') mid);
          t = length (takeWhile (\<lambda>c. c = CHR '' '') (rev mid))
      in if l + t < length mid then Some (take (length mid - t - l) (drop l mid)) else None)"
proof (cases "\<forall>x \<in> set mid. x = CHR '' ''")
  case True
  have d: "dropWhile (\<lambda>c. c = CHR '' '') mid = []"
    using True by simp
  have "takeWhile (\<lambda>c. c = CHR '' '') mid = mid"
    using True by simp
  then have l: "length (takeWhile (\<lambda>c. c = CHR '' '') mid) = length mid"
    by (rule arg_cong)
  have "trim_spaces mid = None"
    unfolding trim_spaces_def Let_def d by simp
  moreover have "\<not> length (takeWhile (\<lambda>c. c = CHR '' '') mid)
      + length (takeWhile (\<lambda>c. c = CHR '' '') (rev mid)) < length mid"
    unfolding l by simp
  ultimately show ?thesis
    unfolding Let_def by (simp only: if_False)
next
  case False
  define sp where "sp = (\<lambda>c. c = CHR '' '')"
  define l where "l = length (takeWhile sp mid)"
  define xs where "xs = dropWhile sp mid"
  define t where "t = length (takeWhile sp (rev xs))"
  have xs: "xs \<noteq> []"
    using False by (simp add: xs_def sp_def)
  have hd: "\<not> sp (hd xs)"
    using xs unfolding xs_def by (rule hd_dropWhile)
  have hd_in: "hd xs \<in> set (rev xs)"
    using xs by simp
  have xs_drop: "xs = drop l mid"
    unfolding xs_def l_def by (rule dropWhile_eq_drop)
  have len_xs: "length xs = length mid - l"
    by (simp add: xs_drop)
  have l_le: "l \<le> length mid"
    unfolding l_def by (rule length_takeWhile_le)
  have "mid = takeWhile sp mid @ xs"
    by (simp add: xs_def)
  then have "rev mid = rev xs @ rev (takeWhile sp mid)"
    by (metis rev_append)
  then have tw: "takeWhile sp (rev mid) = takeWhile sp (rev xs)"
    using takeWhile_append1 [of "hd xs" "rev xs" sp "rev (takeWhile sp mid)"] hd hd_in by simp
  have t_less: "t < length xs"
    using length_takeWhile_less_ex [of "hd xs" "rev xs" sp] hd hd_in by (simp add: t_def)
  have "rev (dropWhile sp (rev xs)) = rev (drop t (rev xs))"
    unfolding t_def by (simp only: dropWhile_eq_drop [symmetric])
  also have "\<dots> = take (length xs - t) xs"
    by (simp add: rev_drop)
  finally have tr0: "rev (dropWhile sp (rev xs)) = take (length xs - t) xs" .
  have "length xs - t = length mid - t - l"
    using len_xs by arith
  then have tr: "rev (dropWhile sp (rev xs)) = take (length mid - t - l) (drop l mid)"
    using tr0 xs_drop by metis
  have ne: "take (length mid - t - l) (drop l mid) \<noteq> []"
    using t_less len_xs l_le by auto
  have lt: "l + t < length mid"
    using t_less len_xs by simp
  have "trim_spaces mid = Some (take (length mid - t - l) (drop l mid))"
    using ne unfolding trim_spaces_def Let_def sp_def [symmetric] xs_def [symmetric] tr by simp
  moreover have "length (takeWhile sp (rev mid)) = t"
    by (simp only: tw t_def)
  ultimately show ?thesis
    using lt unfolding Let_def sp_def [symmetric] l_def [symmetric] by simp
qed


lemma parse_inline_numeral:
  "parse_inline sc (numeral k) = parse_inline_body sc (parse_inline sc (pred_numeral k))"
  by (simp add: numeral_eq_Suc)

section \<open>Properties of the inline parser\<close>

text \<open>
  C9.  For every span all of whose bytes map to 0 in the table of active characters,
  entered with the combined pool depth within the nesting bound, \<open>parse_inline\<close> with a
  \<open>normal_text\<close> that appends its input appends exactly the bytes of the span to the
  output: it returns, with any fuel but none, the output followed by the span, and changes
  nothing of the parser but what the callback does to the opaque state.
\<close>

theorem parse_inline_inactive_identity:
  assumes inactive: "\<forall>c \<in> set data. active_char md c = MD_CHAR_NONE"
    and depth: "\<not> nesting_exceeded md"
    and nt: "normal_text (rndr md) = Some f"
    and app: "\<forall>ob work opq. fst (f ob work opq) = ob @ work"
  shows "\<exists>opq. parse_inline sc (Suc fuel) ob md data = Some (ob @ data, md\<lparr>opaque := opq\<rparr>)"
proof (cases "data = []")
  case True
  then have "parse_inline sc (Suc fuel) ob md data = Some (ob, md)"
    using depth by (simp add: parse_inline_body_def parse_inline_loop.simps)
  then have "parse_inline sc (Suc fuel) ob md data = Some (ob @ data, md\<lparr>opaque := opaque md\<rparr>)"
    using True by simp
  then show ?thesis
    by blast
next
  case False
  let ?P = "\<lambda>c. active_char md c = MD_CHAR_NONE"
  have scan: "skip_while ?P data (length data) 0 = length data"
    using inactive by (intro skip_while_all) auto
  obtain ob1 opq where f: "f ob data (opaque md) = (ob1, opq)"
    by (cases "f ob data (opaque md)")
  have ob1: "ob1 = ob @ data"
    using app [rule_format, of ob data "opaque md"] f by simp
  have put: "put_normal_text ob md (slice data 0 (length data)) = (ob @ data, md\<lparr>opaque := opq\<rparr>)"
    using nt f ob1 by (simp add: put_normal_text_def call_void_def slice_def)
  have "parse_inline_step (markdown_char_ptrs sc (parse_inline sc fuel)) ob md data 0 0
      = Return (Some (ob @ data, md\<lparr>opaque := opq\<rparr>))"
    by (simp add: parse_inline_step_def scan put)
  then have "parse_inline sc (Suc fuel) ob md data = Some (ob @ data, md\<lparr>opaque := opq\<rparr>)"
    using depth False by (simp add: parse_inline_body_def parse_inline_loop.simps)
  then show ?thesis
    by blast
qed

theorem parse_inline_inactive_identity_witness:
  "map_option fst
     (parse_inline example_scanners (Suc 0) ''out: '' (the (hoedown_markdown_new {} 16 text_renderer ()))
        ''hello, world'')
   = Some ''out: hello, world''"
proof -
  let ?md = "the (hoedown_markdown_new {} 16 text_renderer ())"
  have 1: "\<forall>c \<in> set ''hello, world''. active_char ?md c = MD_CHAR_NONE"
    by (simp add: hoedown_eval)
  have 2: "\<not> nesting_exceeded ?md"
    by (simp add: hoedown_eval)
  have 3: "normal_text (rndr ?md) = Some (\<lambda>ob work opq. (ob @ work, opq))"
    by (simp add: hoedown_eval)
  show ?thesis
    using parse_inline_inactive_identity [OF 1 2 3, of example_scanners 0 "''out: ''"]
    by auto
qed

text \<open>
  C10.  With a superscript callback present, \<open>char_superscript\<close> on a caret followed by
  an opening and at once a closing parenthesis returns 3 with the output buffer and the
  parser as they were: no callback ran and no byte was written.  On a caret followed by a
  space or a newline it returns 0, again with nothing changed, so that \<open>parse_inline\<close>
  emits the caret with the next run of text.
\<close>

theorem char_superscript_empty:
  assumes "superscript (rndr md) \<noteq> None"
  shows "char_superscript rec ob md (pre @ ''^()'' @ rest) (length pre) = Some (ob, md, 3)
       \<and> (isspace_md c \<longrightarrow>
            char_superscript rec ob md (pre @ CHR ''^'' # c # rest) (length pre) = Some (ob, md, 0))"
proof
  have "sup_paren_scan (''^()'' @ rest) 2 = 2"
    by (rule sup_paren_scan_stop) simp
  then show "char_superscript rec ob md (pre @ ''^()'' @ rest) (length pre) = Some (ob, md, 3)"
    using assms by (simp add: char_superscript_def char_superscript_body_def Let_def)
next
  show "isspace_md c \<longrightarrow>
      char_superscript rec ob md (pre @ CHR ''^'' # c # rest) (length pre) = Some (ob, md, 0)"
  proof
    assume sp: "isspace_md c"
    then have "skip_while (\<lambda>x. \<not> isspace_md x) (CHR ''^'' # c # rest) (Suc (Suc (length rest))) 1 = 1"
      by (intro skip_while_stop) simp
    moreover have "c \<noteq> CHR 0x28"
      using sp by (auto simp: isspace_md_def)
    ultimately show "char_superscript rec ob md (pre @ CHR ''^'' # c # rest) (length pre) = Some (ob, md, 0)"
      using assms by (simp add: char_superscript_def char_superscript_body_def Let_def)
  qed
qed

theorem char_superscript_empty_witness:
  "char_superscript (parse_inline example_scanners 3) ''z''
      (the (hoedown_markdown_new {HOEDOWN_EXT_SUPERSCRIPT} 16 example_renderer ())) ''z^() w'' 1
     = Some (''z'', the (hoedown_markdown_new {HOEDOWN_EXT_SUPERSCRIPT} 16 example_renderer ()), 3)
   \<and> char_superscript (parse_inline example_scanners 3) ''w''
      (the (hoedown_markdown_new {HOEDOWN_EXT_SUPERSCRIPT} 16 example_renderer ())) ''w^ v'' 1
     = Some (''w'', the (hoedown_markdown_new {HOEDOWN_EXT_SUPERSCRIPT} 16 example_renderer ()), 0)
   \<and> map_option fst
       (parse_inline example_scanners 3 []
          (the (hoedown_markdown_new {HOEDOWN_EXT_SUPERSCRIPT} 16 example_renderer ())) ''x^(a) z^() w^ v'')
     = Some ''x<sup>a</sup> z w^ v''"
proof -
  let ?md = "the (hoedown_markdown_new {HOEDOWN_EXT_SUPERSCRIPT} 16 example_renderer ())"
  have cb: "superscript (rndr ?md) \<noteq> None"
    by (simp add: hoedown_eval)
  have sp: "isspace_md (CHR '' '')"
    by (simp add: isspace_md_def)
  have a: "char_superscript (parse_inline example_scanners 3) ''z'' ?md (''z'' @ ''^()'' @ '' w'') (length ''z'')
      = Some (''z'', ?md, 3)"
    using char_superscript_empty [OF cb] by blast
  have b: "char_superscript (parse_inline example_scanners 3) ''w'' ?md (''w'' @ CHR ''^'' # CHR '' '' # ''v'')
      (length ''w'') = Some (''w'', ?md, 0)"
    using char_superscript_empty [OF cb, of _ _ _ _ "CHR '' ''"] sp by blast
  have c: "map_option fst (parse_inline example_scanners 3 [] ?md ''x^(a) z^() w^ v'')
      = Some ''x<sup>a</sup> z w^ v''"
    by (simp add: hoedown_eval parse_inline_numeral Let_def)
  show ?thesis
    using a b c by simp
qed

text \<open>
  The escape handler.  A byte of \<open>escape_chars\<close> after the backslash is emitted alone,
  through \<open>normal_text\<close> or copied, and two bytes are taken; any other byte but the null
  byte makes the handler return 0 with nothing changed.
\<close>

lemma char_escape_escaped:
  assumes "b \<in> set escape_chars"
  shows "char_escape ob md (pre @ CHR 0x5C # b # rest) (length pre) =
     (case normal_text (rndr md) of
        Some f \<Rightarrow> (case call_void f ob [b] md of (ob1, md1) \<Rightarrow> Some (ob1, md1, 2))
      | None \<Rightarrow> Some (ob @ [b], md, 2))"
  using assms by (simp add: char_escape_def strchr_found_def Let_def split: option.splits)

lemma char_escape_unescaped:
  assumes "b \<notin> set escape_chars" and "b \<noteq> CHR 0x00"
  shows "char_escape ob md (pre @ CHR 0x5C # b # rest) (length pre) = Some (ob, md, 0)"
  using assms by (simp add: char_escape_def strchr_found_def Let_def split: option.splits)

text \<open>
  C7 holds for every byte of the escape set and for every other byte but one.  The null
  byte is not in the escape set, yet \<open>strchr\<close> finds it (at the terminator of
  \<open>escape_chars\<close>): after a backslash it is treated as an escaped byte.  Here the input
  is a backslash and a null byte; the handler takes both and emits the null byte alone,
  and \<open>parse_inline\<close> returns the output without the backslash.  With the byte \<open>q\<close>, which
  is not in the set either, the backslash is kept.
\<close>

theorem char_escape_null_byte:
  "CHR 0x00 \<notin> set escape_chars
   \<and> char_escape [] (the (hoedown_markdown_new {} 16 null_renderer ())) [CHR 0x5C, CHR 0x00] 0
       = Some ([CHR 0x00], the (hoedown_markdown_new {} 16 null_renderer ()), 2)
   \<and> map_option fst
       (parse_inline example_scanners 1 [] (the (hoedown_markdown_new {} 16 null_renderer ()))
          [CHR 0x5C, CHR 0x00])
       = Some [CHR 0x00]
   \<and> CHR ''q'' \<notin> set escape_chars
   \<and> map_option fst
       (parse_inline example_scanners 1 [] (the (hoedown_markdown_new {} 16 null_renderer ()))
          [CHR 0x5C, CHR ''q''])
       = Some [CHR 0x5C, CHR ''q'']"
  by (simp add: hoedown_eval Let_def)

theorem char_escape_null_byte_witness:
  "map_option fst
     (parse_inline example_scanners 1 [] (the (hoedown_markdown_new {} 16 null_renderer ()))
        [CHR 0x5C, CHR 0x00])
   \<noteq> Some [CHR 0x5C, CHR 0x00]"
proof -
  have "map_option fst
      (parse_inline example_scanners 1 [] (the (hoedown_markdown_new {} 16 null_renderer ()))
         [CHR 0x5C, CHR 0x00])
      = Some [CHR 0x00]"
    using char_escape_null_byte by (elim conjE)
  then show ?thesis
    by (simp only: option.inject list.inject) simp
qed

text \<open>
  The content of a delimited span.  After an opening run of \<open>n\<close> delimiters, the search
  stops at the first \<open>n\<close> delimiters in a row; \<open>mid\<close> is what stands between, so it holds
  no such row and does not end in a delimiter (nor start with one, the opening run being
  the whole run).  What the callback receives is \<open>mid\<close> without the spaces at its ends.
\<close>

lemma char_delimited_content:
  assumes n: "n > 0" and ne: "mid \<noteq> []" and h: "hd mid \<noteq> d" and l: "last mid \<noteq> d"
    and norun: "\<forall>k. take n (drop k mid) \<noteq> replicate n d"
    and dsp: "d \<noteq> CHR '' ''"
  shows "char_delimited d cb ob md (pre @ replicate n d @ mid @ replicate n d @ rest) (length pre)
     = (case call_span (cb (rndr md)) ob (trim_spaces mid) md of
          None \<Rightarrow> None
        | Some (ob1, md1, r) \<Rightarrow> Some (ob1, md1, if r then 2 * n + length mid else 0))"
proof -
  define data where "data = replicate n d @ mid @ replicate n d @ rest"
  define sp where "sp = (\<lambda>c. c = CHR '' '')"
  have drop_pre: "drop (length pre) (pre @ replicate n d @ mid @ replicate n d @ rest) = data"
    by (simp add: data_def)
  have len: "length data = 2 * n + length mid + length rest"
    by (simp add: data_def)
  obtain x xs where mid: "mid = x # xs"
    using ne by (cases mid) auto
  have x: "x \<noteq> d"
    using h mid by simp
  have "takeWhile (\<lambda>c. c = d) (replicate n d @ x # xs @ replicate n d @ rest)
      = replicate n d @ takeWhile (\<lambda>c. c = d) (x # xs @ replicate n d @ rest)"
    by (rule takeWhile_append2) simp
  then have "takeWhile (\<lambda>c. c = d) data = replicate n d"
    using x by (simp add: data_def mid)
  then have nb: "skip_while (\<lambda>c. c = d) data (length data) 0 = n"
    by (simp add: skip_while_takeWhile)
  have lead: "0 + length (takeWhile (\<lambda>c. c = d) mid) < n"
    using n by (simp add: mid x)
  have "find_delim d (replicate n d @ mid @ replicate n d @ rest) n (length (replicate n d)) 0
      = find_delim d (replicate n d @ mid @ replicate n d @ rest) n
          (length (replicate n d) + length mid) 0"
    using ne l norun lead by (rule find_delim_through)
  also have "\<dots> = find_delim d ((replicate n d @ mid) @ replicate n d @ rest) n
      (length (replicate n d @ mid)) 0"
    by simp
  also have "\<dots> = (length (replicate n d @ mid) + n, n)"
    by (rule find_delim_run) simp
  finally have fd: "find_delim d data n n 0 = (2 * n + length mid, n)"
    by (simp add: data_def)
  have tk: "take (2 * n + length mid) data = replicate n d @ mid @ replicate n d"
    by (simp add: data_def)
  have f_begin: "skip_while sp data (2 * n + length mid) n = n + length (takeWhile sp mid)"
  proof -
    have "skip_while sp data (2 * n + length mid) n
        = n + length (takeWhile sp (drop n (take (2 * n + length mid) data)))"
      by (rule skip_while_takeWhile) (simp_all add: len)
    also have "drop n (take (2 * n + length mid) data) = mid @ replicate n d"
      by (simp add: tk)
    also have "takeWhile sp (mid @ replicate n d) = takeWhile sp mid"
    proof (cases "\<forall>y \<in> set mid. sp y")
      case True
      then have "takeWhile sp (mid @ replicate n d) = mid @ takeWhile sp (replicate n d)"
        by (intro takeWhile_append2) simp
      moreover have "takeWhile sp mid = mid"
        using True by simp
      moreover have "takeWhile sp (replicate n d) = []"
        using dsp by (simp add: sp_def)
      ultimately show ?thesis
        by (simp only: append_Nil2)
    next
      case False
      then obtain y where "y \<in> set mid" "\<not> sp y"
        by blast
      then show ?thesis
        using takeWhile_append1 [of y mid sp "replicate n d"] by simp
    qed
    finally show ?thesis .
  qed
  have f_end: "back_while sp data n (n + length mid) = n + length mid - length (takeWhile sp (rev mid))"
  proof -
    have "back_while sp data n (n + length mid)
        = n + length mid - length (takeWhile sp (rev (drop n (take (n + length mid) data))))"
      by (rule back_while_takeWhile) (simp_all add: len)
    also have "drop n (take (n + length mid) data) = mid"
      by (simp add: data_def)
    finally show ?thesis .
  qed
  define lw where "lw = length (takeWhile sp mid)"
  define tw where "tw = length (takeWhile sp (rev mid))"
  have tw_le: "tw \<le> length mid"
    unfolding tw_def using length_takeWhile_le [of sp "rev mid"] by simp
  have trim: "trim_spaces mid
      = (if lw + tw < length mid then Some (take (length mid - tw - lw) (drop lw mid)) else None)"
    unfolding lw_def tw_def sp_def by (simp add: trim_spaces_take_drop Let_def)
  have cond: "(n + lw < n + length mid - tw) = (lw + tw < length mid)"
    using tw_le by arith
  have sl: "lw + tw < length mid \<Longrightarrow>
      slice data (n + lw) (n + length mid - tw) = take (length mid - tw - lw) (drop lw mid)"
  proof -
    assume a: "lw + tw < length mid"
    have "n + length mid - tw - (n + lw) = length mid - tw - lw"
      using a by arith
    moreover have "drop (n + lw) data = drop lw mid @ replicate n d @ rest"
      using a by (simp add: data_def)
    ultimately show ?thesis
      using a by (simp add: slice_def)
  qed
  have work: "(if n + lw < n + length mid - tw
               then Some (slice data (n + lw) (n + length mid - tw)) else None) = trim_spaces mid"
    using sl by (simp add: trim cond)
  have e: "2 * n + length mid - n = n + length mid"
    by simp
  show ?thesis
    unfolding char_delimited_def drop_pre Let_def nb fd prod.case sp_def [symmetric] e
      f_begin f_end lw_def [symmetric] tw_def [symmetric] work
    by (simp split: option.splits)
qed

text \<open>
  C8 as stated fails on two counts.  All the spaces at each end are stripped, not one, and
  each end is stripped whether or not the other has a space: the content two spaces, \<open>a\<close>,
  two spaces is passed as \<open>a\<close>, and so is the content space, \<open>a\<close>.  And the span closes
  at the first \<open>n\<close> backticks in a row, also when they open a longer run: one backtick,
  \<open>a\<close>, two backticks, \<open>b\<close>, one backtick is the code span \<open>a\<close> of 3 bytes.
\<close>

theorem codespan_strip_counterexample:
  "char_codespan [] (the (hoedown_markdown_new {} 16 example_renderer ()))
       ([CHR 0x60] @ ''  a  '' @ [CHR 0x60]) 0
     = Some (''<code>a</code>'', the (hoedown_markdown_new {} 16 example_renderer ()), 7)
   \<and> char_codespan [] (the (hoedown_markdown_new {} 16 example_renderer ()))
       ([CHR 0x60] @ '' a'' @ [CHR 0x60]) 0
     = Some (''<code>a</code>'', the (hoedown_markdown_new {} 16 example_renderer ()), 4)
   \<and> char_codespan [] (the (hoedown_markdown_new {} 16 example_renderer ()))
       ([CHR 0x60] @ ''a'' @ [CHR 0x60, CHR 0x60] @ ''b'' @ [CHR 0x60]) 0
     = Some (''<code>a</code>'', the (hoedown_markdown_new {} 16 example_renderer ()), 3)"
  by (simp add: hoedown_eval Let_def)

text \<open>
  C8, amended.  A code span opened by a run of \<open>n\<close> backticks closes at the first \<open>n\<close>
  backticks in a row after it, whatever follows them.  The content passed to the
  \<open>codespan\<close> callback is the bytes between the two delimiters with all the spaces at
  both ends stripped, and a null buffer when nothing else is there; when the callback
  renders, the handler takes the two delimiters and what is between.
\<close>

theorem char_codespan_content:
  assumes "n > 0" and "mid \<noteq> []" and "hd mid \<noteq> CHR 0x60" and "last mid \<noteq> CHR 0x60"
    and "\<forall>k. take n (drop k mid) \<noteq> replicate n (CHR 0x60)"
  shows "char_codespan ob md (pre @ replicate n (CHR 0x60) @ mid @ replicate n (CHR 0x60) @ rest) (length pre)
     = (case call_span (codespan (rndr md)) ob (trim_spaces mid) md of
          None \<Rightarrow> None
        | Some (ob1, md1, r) \<Rightarrow> Some (ob1, md1, if r then 2 * n + length mid else 0))"
  unfolding char_codespan_def using assms by (intro char_delimited_content) simp_all

theorem char_codespan_content_witness:
  "char_codespan ''x'' (the (hoedown_markdown_new {} 16 example_renderer ()))
       (''x'' @ [CHR 0x60] @ '' a  b '' @ [CHR 0x60, CHR 0x60] @ ''c'') 1
     = Some (''x<code>a  b</code>'', the (hoedown_markdown_new {} 16 example_renderer ()), 8)"
proof -
  let ?md = "the (hoedown_markdown_new {} 16 example_renderer ())"
  have norun: "\<forall>k. take 1 (drop k '' a  b '') \<noteq> replicate 1 (CHR 0x60)"
    by (rule no_run_if_absent) simp_all
  have "char_codespan ''x'' ?md
      (''x'' @ replicate 1 (CHR 0x60) @ '' a  b '' @ replicate 1 (CHR 0x60) @ ([CHR 0x60] @ ''c'')) (length ''x'')
      = (case call_span (codespan (rndr ?md)) ''x'' (trim_spaces '' a  b '') ?md of
          None \<Rightarrow> None
        | Some (ob1, md1, r) \<Rightarrow> Some (ob1, md1, if r then 2 * 1 + length '' a  b '' else 0))"
    by (rule char_codespan_content [OF _ _ _ _ norun]) simp_all
  then show ?thesis
    by (simp add: trim_spaces_def hoedown_eval)
qed



lemma rndr_newbuf [simp]: "rndr (newbuf md t) = rndr md"
  by (simp add: newbuf_def)

lemma opaque_newbuf [simp]: "opaque (newbuf md t) = opaque md"
  by (simp add: newbuf_def)

lemma in_link_body_newbuf [simp]: "in_link_body (newbuf md t) = in_link_body md"
  by (simp add: newbuf_def)























text \<open>
  C4 fails on nested links.  \<open>char_link\<close> sets \<open>in_link_body\<close> to 1 before it parses the
  display text and to 0 after it, whatever the flag was on entry.  Entered with the flag
  set (inside the text of an enclosing link), \<open>char_link\<close> on \<open>[b](u)\<close> returns with the
  flag cleared.  So in the text of a link the autolink scanner is off before a nested
  link and on after it: \<open>www.x.org\<close> stays text in the first span below and becomes a
  link of its own, inside the enclosing link, in the second.
\<close>

theorem in_link_body_cleared_by_nested_link:
  "map_option (\<lambda>(ob, md, n). (in_link_body md, n))
     (char_link (parse_inline example_scanners 3) []
        ((the (hoedown_markdown_new {HOEDOWN_EXT_AUTOLINK} 16 example_renderer ()))\<lparr>in_link_body := True\<rparr>)
        ''[b](u)'' 0)
     = Some (False, 6)
   \<and> map_option fst
       (parse_inline example_scanners 4 []
          (the (hoedown_markdown_new {HOEDOWN_EXT_AUTOLINK} 16 example_renderer ())) ''[a www.x.org](v)'')
     = Some ''<a href=v>a www.x.org</a>''
   \<and> map_option fst
       (parse_inline example_scanners 4 []
          (the (hoedown_markdown_new {HOEDOWN_EXT_AUTOLINK} 16 example_renderer ()))
          ''[a [b](u) www.x.org](v)'')
     = Some ''<a href=v>a <a href=u>b</a> <a href=http://www.x.org>www.x.org</a></a>''"
  by (simp add: hoedown_eval parse_inline_numeral Let_def)

theorem in_link_body_cleared_by_nested_link_witness:
  "map_option fst
       (parse_inline example_scanners 4 []
          (the (hoedown_markdown_new {HOEDOWN_EXT_AUTOLINK} 16 example_renderer ()))
          ''[a [b](u) www.x.org](v)'')
     \<noteq> Some ''<a href=v>a <a href=u>b</a> www.x.org</a>''"
proof -
  have "map_option fst
       (parse_inline example_scanners 4 []
          (the (hoedown_markdown_new {HOEDOWN_EXT_AUTOLINK} 16 example_renderer ()))
          ''[a [b](u) www.x.org](v)'')
     = Some ''<a href=v>a <a href=u>b</a> <a href=http://www.x.org>www.x.org</a></a>''"
    using in_link_body_cleared_by_nested_link by (elim conjE)
  then show ?thesis
    by (simp only: option.inject) simp
qed

text \<open>
  C3 as stated fails: the bound is tested when a parse is entered, with a strict comparison, and the
  handlers borrow their buffers after the test.  With \<open>max_nesting = 1\<close> and one block
  buffer in use (that of the paragraph being parsed), \<open>parse_inline\<close> is entered at depth
  1 and proceeds; \<open>parse_emph1\<close> borrows a span buffer, and the parse of the emphasis
  content is entered with two buffers in use.  That parse returns at once, and the
  emphasis is rendered empty.
\<close>

theorem nesting_bound_counterexample:
  "max_nesting ((the (hoedown_markdown_new {} 1 example_renderer ()))\<lparr>work_bufs := (\<lambda>t. 0)(BUFFER_BLOCK := 1)\<rparr>) = 1
   \<and> \<not> nesting_exceeded
        ((the (hoedown_markdown_new {} 1 example_renderer ()))\<lparr>work_bufs := (\<lambda>t. 0)(BUFFER_BLOCK := 1)\<rparr>)
   \<and> map_option (\<lambda>(ob, md, n). (ob, work_bufs md BUFFER_SPAN, work_bufs md BUFFER_BLOCK, n))
       (char_emphasis depth_probe []
          ((the (hoedown_markdown_new {} 1 example_renderer ()))\<lparr>work_bufs := (\<lambda>t. 0)(BUFFER_BLOCK := 1)\<rparr>)
          ''*a*'' 0)
     = Some (''<em>over</em>'', 0, 1, 3)
   \<and> map_option fst
       (parse_inline example_scanners 3 []
          ((the (hoedown_markdown_new {} 1 example_renderer ()))\<lparr>work_bufs := (\<lambda>t. 0)(BUFFER_BLOCK := 1)\<rparr>)
          ''x *a* y'')
     = Some ''x <em></em> y''"
  by (simp add: hoedown_eval parse_inline_numeral Let_def)

text \<open>
  The test of the nesting at the entry of the two parsers, and what one buffer borrowed
  after it does when the count stands at the bound.
\<close>

lemma word_succ_greater: "x \<noteq> - 1 \<Longrightarrow> x < x + 1" for x :: "64 word"
  using inc_less_eq_self_iff_eq [of x] by (simp add: not_le [symmetric])

lemma exceeded_iff:
  "nesting_exceeded md \<longleftrightarrow> work_bufs md BUFFER_SPAN + work_bufs md BUFFER_BLOCK > max_nesting md"
  by (simp add: nesting_exceeded_def)

lemma borrowed_exceeds:
  assumes eq: "work_bufs md BUFFER_SPAN + work_bufs md BUFFER_BLOCK = max_nesting md"
    and nowrap: "max_nesting md \<noteq> - 1"
  shows "nesting_exceeded (newbuf md BUFFER_SPAN)" and "nesting_exceeded (newbuf md BUFFER_BLOCK)"
proof -
  let ?s = "work_bufs md BUFFER_SPAN" and ?b = "work_bufs md BUFFER_BLOCK"
  have ne: "BUFFER_SPAN \<noteq> BUFFER_BLOCK"
    by (simp add: BUFFER_SPAN_def BUFFER_BLOCK_def)
  have lt: "max_nesting md < max_nesting md + 1"
    using nowrap by (rule word_succ_greater)
  have s: "?s + 1 + ?b = max_nesting md + 1"
    unfolding eq [symmetric] by (simp add: ac_simps)
  have b: "?s + (?b + 1) = max_nesting md + 1"
    unfolding eq [symmetric] by (simp add: ac_simps)
  show "nesting_exceeded (newbuf md BUFFER_SPAN)"
    using lt ne ne [symmetric] by (simp add: nesting_exceeded_def newbuf_def s)
  show "nesting_exceeded (newbuf md BUFFER_BLOCK)"
    using lt ne ne [symmetric] by (simp add: nesting_exceeded_def newbuf_def b)
qed

lemma skipped_inline:
  "nesting_exceeded md \<Longrightarrow> parse_inline sc (Suc fuel) ob md data = Some (ob, md)"
  by (simp add: parse_inline_body_def)

lemma skipped_block:
  "nesting_exceeded md \<Longrightarrow> parse_block sc find_block_tag (Suc fuel) ob md data = Some (ob, md)"
  by (simp add: parse_block_body_def)

lemma entered_inline:
  "\<not> nesting_exceeded md \<Longrightarrow> parse_inline sc (Suc fuel) ob md data
     = parse_inline_loop (markdown_char_ptrs sc (parse_inline sc fuel)) ob md data 0 0"
  by (simp add: parse_inline_body_def)

lemma entered_block:
  "\<not> nesting_exceeded md \<Longrightarrow> parse_block sc find_block_tag (Suc fuel) ob md data
     = parse_block_loop (Suc fuel)
         (parse_block_one find_block_tag (parse_inline sc (Suc fuel)) (parse_block sc find_block_tag fuel))
         ob md data 0"
  by (simp add: parse_block_body_def)

lemma emphasis_at_bound:
  assumes "work_bufs md BUFFER_SPAN + work_bufs md BUFFER_BLOCK = max_nesting md"
    and "max_nesting md \<noteq> - 1"
  shows "render_emph (parse_inline sc (Suc fuel)) cb ob md data i n
     = (case call_span (cb (rndr (newbuf md BUFFER_SPAN))) ob [] (newbuf md BUFFER_SPAN) of
          None \<Rightarrow> None
        | Some (ob3, md3, r) \<Rightarrow> Some (ob3, popbuf md3 BUFFER_SPAN, if r then i + n else 0))"
  using skipped_inline [OF borrowed_exceeds(1) [OF assms], of sc fuel "[]" "take i data"]
  by (simp add: render_emph_def Let_def)

lemma blockquote_at_bound:
  assumes "work_bufs md BUFFER_SPAN + work_bufs md BUFFER_BLOCK = max_nesting md"
    and "max_nesting md \<noteq> - 1"
  shows "parse_blockquote (parse_block sc find_block_tag (Suc fuel)) ob md data
     = (case call_opt (blockquote (rndr (newbuf md BUFFER_BLOCK))) ob [] (newbuf md BUFFER_BLOCK) of
          (ob2, md2) \<Rightarrow> Some (ob2, popbuf md2 BUFFER_BLOCK, fst (blockquote_lines data 0 0 [])))"
  using skipped_block [OF borrowed_exceeds(2) [OF assms], of sc find_block_tag fuel "[]"]
  by (simp add: parse_blockquote_def split: prod.splits)

text \<open>
  C3, amended.  The nesting bound is tested where a parse is entered, and only there.
  \<open>parse_inline\<close> and \<open>parse_block\<close> entered with more than \<open>max_nesting\<close> buffers in use,
  span and block pools together, return at once with the output buffer and the parser as
  they were: the span is rendered as nothing and the rest of the document is not touched.
  Entered with \<open>max_nesting\<close> buffers in use or fewer, they go on to their loops: the
  comparison is strict.  The buffers are borrowed after the test, and the test does not
  bound them: when a parse is entered with exactly \<open>max_nesting\<close> buffers in use, the
  buffer that an emphasis or a block quote borrows for its content makes the count
  \<open>max_nesting + 1\<close>, the parse of the content entered there is skipped, and the callback
  is given an empty content.
\<close>

theorem nesting_guard_at_entry:
  "(work_bufs md BUFFER_SPAN + work_bufs md BUFFER_BLOCK > max_nesting md \<longrightarrow>
      parse_inline sc (Suc fuel) ob md data = Some (ob, md)
      \<and> parse_block sc find_block_tag (Suc fuel) ob md data = Some (ob, md))
   \<and> (work_bufs md BUFFER_SPAN + work_bufs md BUFFER_BLOCK \<le> max_nesting md \<longrightarrow>
      parse_inline sc (Suc fuel) ob md data
        = parse_inline_loop (markdown_char_ptrs sc (parse_inline sc fuel)) ob md data 0 0
      \<and> parse_block sc find_block_tag (Suc fuel) ob md data
        = parse_block_loop (Suc fuel)
            (parse_block_one find_block_tag (parse_inline sc (Suc fuel))
               (parse_block sc find_block_tag fuel))
            ob md data 0)
   \<and> (work_bufs md BUFFER_SPAN + work_bufs md BUFFER_BLOCK = max_nesting md
        \<and> max_nesting md \<noteq> - 1 \<longrightarrow>
      work_bufs (newbuf md BUFFER_SPAN) BUFFER_SPAN + work_bufs (newbuf md BUFFER_SPAN) BUFFER_BLOCK
        > max_nesting (newbuf md BUFFER_SPAN)
      \<and> work_bufs (newbuf md BUFFER_BLOCK) BUFFER_SPAN
          + work_bufs (newbuf md BUFFER_BLOCK) BUFFER_BLOCK
        > max_nesting (newbuf md BUFFER_BLOCK)
      \<and> render_emph (parse_inline sc (Suc fuel)) cb ob md data i n
        = (case call_span (cb (rndr (newbuf md BUFFER_SPAN))) ob [] (newbuf md BUFFER_SPAN) of
             None \<Rightarrow> None
           | Some (ob3, md3, r) \<Rightarrow> Some (ob3, popbuf md3 BUFFER_SPAN, if r then i + n else 0))
      \<and> parse_blockquote (parse_block sc find_block_tag (Suc fuel)) ob md data
        = (case call_opt (blockquote (rndr (newbuf md BUFFER_BLOCK))) ob [] (newbuf md BUFFER_BLOCK) of
             (ob2, md2) \<Rightarrow> Some (ob2, popbuf md2 BUFFER_BLOCK, fst (blockquote_lines data 0 0 []))))"
proof (intro conjI impI)
  assume "max_nesting md < work_bufs md BUFFER_SPAN + work_bufs md BUFFER_BLOCK"
  then have e: "nesting_exceeded md"
    by (simp add: exceeded_iff)
  show "parse_inline sc (Suc fuel) ob md data = Some (ob, md)"
    using e by (rule skipped_inline)
  show "parse_block sc find_block_tag (Suc fuel) ob md data = Some (ob, md)"
    using e by (rule skipped_block)
next
  assume "work_bufs md BUFFER_SPAN + work_bufs md BUFFER_BLOCK \<le> max_nesting md"
  then have e: "\<not> nesting_exceeded md"
    by (simp add: exceeded_iff not_less)
  show "parse_inline sc (Suc fuel) ob md data
      = parse_inline_loop (markdown_char_ptrs sc (parse_inline sc fuel)) ob md data 0 0"
    using e by (rule entered_inline)
  show "parse_block sc find_block_tag (Suc fuel) ob md data
      = parse_block_loop (Suc fuel)
          (parse_block_one find_block_tag (parse_inline sc (Suc fuel))
             (parse_block sc find_block_tag fuel))
          ob md data 0"
    using e by (rule entered_block)
next
  assume a: "work_bufs md BUFFER_SPAN + work_bufs md BUFFER_BLOCK = max_nesting md
      \<and> max_nesting md \<noteq> - 1"
  show "max_nesting (newbuf md BUFFER_SPAN)
      < work_bufs (newbuf md BUFFER_SPAN) BUFFER_SPAN + work_bufs (newbuf md BUFFER_SPAN) BUFFER_BLOCK"
    using borrowed_exceeds(1) [of md] a by (simp add: exceeded_iff)
  show "max_nesting (newbuf md BUFFER_BLOCK)
      < work_bufs (newbuf md BUFFER_BLOCK) BUFFER_SPAN + work_bufs (newbuf md BUFFER_BLOCK) BUFFER_BLOCK"
    using borrowed_exceeds(2) [of md] a by (simp add: exceeded_iff)
  show "render_emph (parse_inline sc (Suc fuel)) cb ob md data i n
      = (case call_span (cb (rndr (newbuf md BUFFER_SPAN))) ob [] (newbuf md BUFFER_SPAN) of
           None \<Rightarrow> None
         | Some (ob3, md3, r) \<Rightarrow> Some (ob3, popbuf md3 BUFFER_SPAN, if r then i + n else 0))"
    using a by (intro emphasis_at_bound) simp_all
  show "parse_blockquote (parse_block sc find_block_tag (Suc fuel)) ob md data
      = (case call_opt (blockquote (rndr (newbuf md BUFFER_BLOCK))) ob [] (newbuf md BUFFER_BLOCK) of
           (ob2, md2) \<Rightarrow> Some (ob2, popbuf md2 BUFFER_BLOCK, fst (blockquote_lines data 0 0 [])))"
    using a by (intro blockquote_at_bound) simp_all
qed


theorem nesting_guard_at_entry_witness:
  "parse_inline example_scanners (Suc 0) ''out'' ((the (hoedown_markdown_new {} 1 example_block_renderer ()))\<lparr>work_bufs := (\<lambda>t. 1)\<rparr>) ''*a*'' = Some (''out'', ((the (hoedown_markdown_new {} 1 example_block_renderer ()))\<lparr>work_bufs := (\<lambda>t. 1)\<rparr>))
   \<and> parse_block example_scanners example_block_tag (Suc 0) ''out'' ((the (hoedown_markdown_new {} 1 example_block_renderer ()))\<lparr>work_bufs := (\<lambda>t. 1)\<rparr>) (''> q'' @ [CHR 0x0A])
     = Some (''out'', ((the (hoedown_markdown_new {} 1 example_block_renderer ()))\<lparr>work_bufs := (\<lambda>t. 1)\<rparr>))
   \<and> map_option (\<lambda>(ob, md, n). (ob, n))
       (render_emph (parse_inline example_scanners (Suc 0)) emphasis [] ((the (hoedown_markdown_new {} 1 example_block_renderer ()))\<lparr>work_bufs := (\<lambda>t. 0)(BUFFER_BLOCK := 1)\<rparr>) ''a*'' 1 1)
     = Some (''<em></em>'', 2)
   \<and> map_option (\<lambda>(ob, md, n). (ob, n))
       (parse_blockquote (parse_block example_scanners example_block_tag (Suc 0)) [] ((the (hoedown_markdown_new {} 1 example_block_renderer ()))\<lparr>work_bufs := (\<lambda>t. 0)(BUFFER_BLOCK := 1)\<rparr>)
          (''> q'' @ [CHR 0x0A]))
     = Some (''<blockquote></blockquote>'', 4)"
proof -
  let ?x = "((the (hoedown_markdown_new {} 1 example_block_renderer ()))\<lparr>work_bufs := (\<lambda>t. 1)\<rparr>)"
  let ?e = "((the (hoedown_markdown_new {} 1 example_block_renderer ()))\<lparr>work_bufs := (\<lambda>t. 0)(BUFFER_BLOCK := 1)\<rparr>)"
  have x: "max_nesting ?x < work_bufs ?x BUFFER_SPAN + work_bufs ?x BUFFER_BLOCK"
    by (simp add: hoedown_markdown_new_def)
  have e: "work_bufs ?e BUFFER_SPAN + work_bufs ?e BUFFER_BLOCK = max_nesting ?e \<and> max_nesting ?e \<noteq> - 1"
    by (simp add: hoedown_markdown_new_def BUFFER_SPAN_def BUFFER_BLOCK_def)
  have a: "parse_inline example_scanners (Suc 0) ''out'' ?x ''*a*'' = Some (''out'', ?x)"
    using nesting_guard_at_entry [where md = ?x and sc = example_scanners and fuel = 0
        and ob = "''out''" and data = "''*a*''", THEN conjunct1] x
    by blast
  have b: "parse_block example_scanners example_block_tag (Suc 0) ''out'' ?x (''> q'' @ [CHR 0x0A])
      = Some (''out'', ?x)"
    using nesting_guard_at_entry [where md = ?x and sc = example_scanners and fuel = 0
        and ob = "''out''" and data = "''> q'' @ [CHR 0x0A]" and find_block_tag = example_block_tag,
        THEN conjunct1] x
    by blast
  note H = nesting_guard_at_entry [where md = ?e and sc = example_scanners and fuel = 0
      and ob = "[]" and find_block_tag = example_block_tag, THEN conjunct2, THEN conjunct2,
      rule_format, OF e]
  have c: "map_option (\<lambda>(ob, md, n). (ob, n))
       (render_emph (parse_inline example_scanners (Suc 0)) emphasis [] ?e ''a*'' 1 1)
     = Some (''<em></em>'', 2)"
    unfolding H [where cb = emphasis and data = "''a*''" and i = 1 and n = 1,
        THEN conjunct2, THEN conjunct2, THEN conjunct1]
    by (simp add: call_span_def newbuf_def hoedown_markdown_new_def example_block_renderer_def
        example_renderer_def html_tag_def)
  have d: "map_option (\<lambda>(ob, md, n). (ob, n))
       (parse_blockquote (parse_block example_scanners example_block_tag (Suc 0)) [] ?e
          (''> q'' @ [CHR 0x0A]))
     = Some (''<blockquote></blockquote>'', 4)"
    unfolding H [where data = "''> q'' @ [CHR 0x0A]", THEN conjunct2, THEN conjunct2, THEN conjunct2]
    by (simp add: call_opt_def call_void_def newbuf_def hoedown_markdown_new_def
        example_block_renderer_def wrap_def blockquote_lines.simps next_line.simps
        prefix_quote_def skip_space_def slice_def is_empty_def is_empty_loop.simps Let_def)
  show ?thesis
    using a b c d by (intro conjI)
qed


section \<open>Properties of the buffer pools\<close>

lemma same_pools_refl [simp]: "same_pools md md"
  by (simp add: same_pools_def)

lemma same_pools_trans: "same_pools a b \<Longrightarrow> same_pools b c \<Longrightarrow> same_pools a c"
  by (simp add: same_pools_def)

lemma call_span_pools: "call_span cb ob arg md = Some (ob', md', r) \<Longrightarrow> same_pools md md'"
  by (auto simp: call_span_def same_pools_def split: option.splits prod.splits)

lemma call_void_pools: "call_void f ob arg md = (ob', md') \<Longrightarrow> same_pools md md'"
  by (auto simp: call_void_def same_pools_def split: prod.splits)

lemma put_normal_text_pools: "put_normal_text ob md work = (ob', md') \<Longrightarrow> same_pools md md'"
  by (auto simp: put_normal_text_def split: option.splits dest: call_void_pools)

lemma popbuf_newbuf_pools:
  "same_pools (newbuf md t) md' \<Longrightarrow> same_pools md (popbuf md' t)"
  by (auto simp: same_pools_def newbuf_def popbuf_def)

lemma unat_succ_le: "unat (x + 1) \<le> unat x + 1" for x :: "64 word"
  by (metis add.commute unat_word_ariths(1) mod_less_eq_dividend unsigned_1)

lemma pool_depth_newbuf: "pool_depth (newbuf md t) \<le> pool_depth md + 1"
  using unat_succ_le [of "work_bufs md BUFFER_SPAN"] unat_succ_le [of "work_bufs md BUFFER_BLOCK"]
  by (auto simp: pool_depth_def newbuf_def BUFFER_SPAN_def BUFFER_BLOCK_def)

lemma pool_depth_same: "same_pools md md' \<Longrightarrow> pool_depth md' = pool_depth md"
  by (simp add: same_pools_def pool_depth_def)

lemma small_nesting_same: "same_pools md md' \<Longrightarrow> small_nesting md' = small_nesting md"
  by (simp add: same_pools_def small_nesting_def)

lemma small_nesting_newbuf [simp]: "small_nesting (newbuf md t) = small_nesting md"
  by (simp add: newbuf_def small_nesting_def)

lemma max_nesting_newbuf [simp]: "max_nesting (newbuf md t) = max_nesting md"
  by (simp add: newbuf_def)

lemma handler_safe_linebreak: "handler_safe char_linebreak"
  by (auto simp: handler_safe_def char_linebreak_def Let_def split: if_splits option.splits
      dest!: call_span_pools)

lemma handler_safe_delimited: "handler_safe (char_delimited d cb)"
  by (auto simp: handler_safe_def char_delimited_def Let_def split: if_splits option.splits prod.splits
      dest!: call_span_pools)

lemma handler_safe_escape: "handler_safe char_escape"
  by (auto simp: handler_safe_def char_escape_def Let_def split: if_splits option.splits prod.splits
      dest!: call_void_pools)

lemma handler_safe_entity: "handler_safe char_entity"
  by (auto simp: handler_safe_def char_entity_def Let_def split: if_splits option.splits prod.splits
      dest!: call_void_pools)


lemma pool_safeD:
  "pool_safe rec \<Longrightarrow> small_nesting md \<Longrightarrow> pool_depth md \<le> unat (max_nesting md) + 4
     \<Longrightarrow> rec ob md data = Some (ob', md') \<Longrightarrow> same_pools md md'"
  unfolding pool_safe_def by blast

lemma handler_safeD:
  "handler_safe h \<Longrightarrow> small_nesting md \<Longrightarrow> pool_depth md \<le> unat (max_nesting md)
     \<Longrightarrow> h ob md txt offset = Some (ob', md', n) \<Longrightarrow> same_pools md md'"
  unfolding handler_safe_def by blast

lemma borrowed_parse_pools:
  assumes rec: "pool_safe rec" and small: "small_nesting md"
    and depth: "pool_depth md \<le> unat (max_nesting md) + 3"
    and run: "rec ob0 (newbuf md t) data = Some (work, md2)"
  shows "same_pools (newbuf md t) md2"
proof -
  have "pool_depth (newbuf md t) \<le> unat (max_nesting (newbuf md t)) + 4"
    using pool_depth_newbuf [of md t] depth by simp
  then show ?thesis
    using rec small run by (intro pool_safeD [of rec "newbuf md t"]) simp_all
qed

lemma render_emph_pools:
  assumes "pool_safe rec" and "small_nesting md" and "pool_depth md \<le> unat (max_nesting md) + 3"
    and run: "render_emph rec cb ob md data i n = Some (ob', md', k)"
  shows "same_pools md md'"
proof -
  obtain work md2 where r: "rec [] (newbuf md BUFFER_SPAN) (take i data) = Some (work, md2)"
    using run by (auto simp: render_emph_def Let_def split: option.splits)
  then obtain ob3 md3 b where c: "call_span (cb (rndr md2)) ob work md2 = Some (ob3, md3, b)"
    and md': "md' = popbuf md3 BUFFER_SPAN"
    using run by (auto simp: render_emph_def Let_def split: option.splits)
  have "same_pools (newbuf md BUFFER_SPAN) md2"
    using assms(1-3) r by (rule borrowed_parse_pools)
  moreover have "same_pools md2 md3"
    using c by (rule call_span_pools)
  ultimately have "same_pools (newbuf md BUFFER_SPAN) md3"
    by (rule same_pools_trans)
  then show ?thesis
    unfolding md' by (rule popbuf_newbuf_pools)
qed

lemma parse_emph1_step_pools:
  assumes "pool_safe rec" and "small_nesting md" and "pool_depth md \<le> unat (max_nesting md) + 3"
    and "parse_emph1_step rec ob md data c i = Return (Some (ob', md', k))"
  shows "same_pools md md'"
  using assms(4) render_emph_pools [OF assms(1-3)]
  by (auto simp: parse_emph1_step_def Let_def split: if_splits)

lemma parse_emph1_loop_pools:
  "parse_emph1_loop rec ob md data c i = Some (ob', md', k) \<Longrightarrow> pool_safe rec
     \<Longrightarrow> small_nesting md \<Longrightarrow> pool_depth md \<le> unat (max_nesting md) + 3 \<Longrightarrow> same_pools md md'"
proof (induction rec ob md data c i rule: parse_emph1_loop.induct)
  case (1 rec ob md data c i)
  show ?case
  proof (cases "i < length data")
    case False
    then show ?thesis
      using 1(2) by (subst (asm) parse_emph1_loop.simps) simp
  next
    case True
    show ?thesis
    proof (cases "parse_emph1_step rec ob md data c i")
      case (Continue j)
      then have "parse_emph1_loop rec ob md data c j = Some (ob', md', k)"
        using 1(2) True by (subst (asm) parse_emph1_loop.simps) simp
      then show ?thesis
        using 1 True Continue by simp
    next
      case (Return r)
      then have "r = Some (ob', md', k)"
        using 1(2) True by (subst (asm) parse_emph1_loop.simps) simp
      then show ?thesis
        using Return 1(3-5) by (intro parse_emph1_step_pools [of rec md ob data c i]) simp_all
    qed
  qed
qed

lemma parse_emph1_pools:
  "parse_emph1 rec ob md data c = Some (ob', md', k) \<Longrightarrow> pool_safe rec
     \<Longrightarrow> small_nesting md \<Longrightarrow> pool_depth md \<le> unat (max_nesting md) + 3 \<Longrightarrow> same_pools md md'"
  unfolding parse_emph1_def by (rule parse_emph1_loop_pools)

lemma parse_emph2_step_pools:
  assumes "pool_safe rec" and "small_nesting md" and "pool_depth md \<le> unat (max_nesting md) + 3"
    and "parse_emph2_step rec ob md data c i = Return (Some (ob', md', k))"
  shows "same_pools md md'"
  using assms(4) render_emph_pools [OF assms(1-3)]
  by (auto simp: parse_emph2_step_def Let_def split: if_splits)

lemma parse_emph2_loop_pools:
  "parse_emph2_loop rec ob md data c i = Some (ob', md', k) \<Longrightarrow> pool_safe rec
     \<Longrightarrow> small_nesting md \<Longrightarrow> pool_depth md \<le> unat (max_nesting md) + 3 \<Longrightarrow> same_pools md md'"
proof (induction rec ob md data c i rule: parse_emph2_loop.induct)
  case (1 rec ob md data c i)
  show ?case
  proof (cases "i < length data")
    case False
    then show ?thesis
      using 1(2) by (subst (asm) parse_emph2_loop.simps) simp
  next
    case True
    show ?thesis
    proof (cases "parse_emph2_step rec ob md data c i")
      case (Continue j)
      then have "parse_emph2_loop rec ob md data c j = Some (ob', md', k)"
        using 1(2) True by (subst (asm) parse_emph2_loop.simps) simp
      then show ?thesis
        using 1 True Continue by simp
    next
      case (Return r)
      then have "r = Some (ob', md', k)"
        using 1(2) True by (subst (asm) parse_emph2_loop.simps) simp
      then show ?thesis
        using Return 1(3-5) by (intro parse_emph2_step_pools [of rec md ob data c i]) simp_all
    qed
  qed
qed

lemma parse_emph2_pools:
  "parse_emph2 rec ob md data c = Some (ob', md', k) \<Longrightarrow> pool_safe rec
     \<Longrightarrow> small_nesting md \<Longrightarrow> pool_depth md \<le> unat (max_nesting md) + 3 \<Longrightarrow> same_pools md md'"
  unfolding parse_emph2_def by (rule parse_emph2_loop_pools)

lemma sub_ret_Some: "sub_ret res n = Some (ob', md', k) \<Longrightarrow> \<exists>k0. res = Some (ob', md', k0)"
  by (auto simp: sub_ret_def split: option.splits)

lemma add_ret_Some: "add_ret res n = Some (ob', md', k) \<Longrightarrow> \<exists>k0. res = Some (ob', md', k0)"
  by (auto simp: add_ret_def split: option.splits)

lemma parse_emph3_step_pools:
  assumes "pool_safe rec" and "small_nesting md" and "pool_depth md \<le> unat (max_nesting md) + 3"
    and "parse_emph3_step rec ob md txt p c i = Return (Some (ob', md', k))"
  shows "same_pools md md'"
  using assms(4) render_emph_pools [OF assms(1-3)]
    parse_emph1_pools [OF _ assms(1-3)] parse_emph2_pools [OF _ assms(1-3)]
  by (auto simp: parse_emph3_step_def Let_def split: if_splits dest!: sub_ret_Some)

lemma parse_emph3_loop_pools:
  "parse_emph3_loop rec ob md txt p c i = Some (ob', md', k) \<Longrightarrow> pool_safe rec
     \<Longrightarrow> small_nesting md \<Longrightarrow> pool_depth md \<le> unat (max_nesting md) + 3 \<Longrightarrow> same_pools md md'"
proof (induction rec ob md "txt" p c i rule: parse_emph3_loop.induct)
  case (1 rec ob md span p c i)
  show ?case
  proof (cases "i < length span - p")
    case False
    then show ?thesis
      using 1(2) by (subst (asm) parse_emph3_loop.simps) simp
  next
    case True
    show ?thesis
    proof (cases "parse_emph3_step rec ob md span p c i")
      case (Continue j)
      then have "parse_emph3_loop rec ob md span p c j = Some (ob', md', k)"
        using 1(2) True by (subst (asm) parse_emph3_loop.simps) simp
      then show ?thesis
        using 1 True Continue by simp
    next
      case (Return r)
      then have "r = Some (ob', md', k)"
        using 1(2) True by (subst (asm) parse_emph3_loop.simps) simp
      then show ?thesis
        using Return 1(3-5) by (intro parse_emph3_step_pools [of rec md ob span p c i]) simp_all
    qed
  qed
qed

lemma handler_safe_emphasis: "pool_safe rec \<Longrightarrow> handler_safe (char_emphasis rec)"
  unfolding handler_safe_def
proof (intro allI impI, elim conjE)
  fix ob md span offset ob' md' n
  assume rec: "pool_safe rec" and small: "small_nesting md"
    and depth: "pool_depth md \<le> unat (max_nesting md)"
    and run: "char_emphasis rec ob md span offset = Some (ob', md', n)"
  have d3: "pool_depth md \<le> unat (max_nesting md) + 3"
    using depth by simp
  show "same_pools md md'"
    using run parse_emph1_pools [OF _ rec small d3] parse_emph2_pools [OF _ rec small d3]
      parse_emph3_loop_pools [OF _ rec small d3]
    by (auto simp: char_emphasis_def parse_emph3_def Let_def split: if_splits dest!: add_ret_Some)
qed

lemma handler_safe_superscript: "pool_safe rec \<Longrightarrow> handler_safe (char_superscript rec)"
  unfolding handler_safe_def
proof (intro allI impI, elim conjE)
  fix ob md span offset ob' md' n
  assume rec: "pool_safe rec" and small: "small_nesting md"
    and depth: "pool_depth md \<le> unat (max_nesting md)"
    and run: "char_superscript rec ob md span offset = Some (ob', md', n)"
  have d3: "pool_depth md \<le> unat (max_nesting md) + 3"
    using depth by simp
  have body: "same_pools md md'"
    if b: "char_superscript_body rec ob md data s l = Some (ob', md', n)" for data s l
  proof (cases "l - s = 0")
    case True
    then show ?thesis
      using b by (simp add: char_superscript_body_def)
  next
    case False
    then obtain sup_buf md2 where r: "rec [] (newbuf md BUFFER_SPAN) (slice data s l) = Some (sup_buf, md2)"
      using b by (auto simp: char_superscript_body_def Let_def split: option.splits)
    then obtain ob3 md3 x where c: "call_span (superscript (rndr md2)) ob sup_buf md2 = Some (ob3, md3, x)"
      and md': "md' = popbuf md3 BUFFER_SPAN"
      using b False by (auto simp: char_superscript_body_def Let_def split: option.splits)
    have "same_pools (newbuf md BUFFER_SPAN) md2"
      using rec small d3 r by (rule borrowed_parse_pools)
    moreover have "same_pools md2 md3"
      using c by (rule call_span_pools)
    ultimately have "same_pools (newbuf md BUFFER_SPAN) md3"
      by (rule same_pools_trans)
    then show ?thesis
      unfolding md' by (rule popbuf_newbuf_pools)
  qed
  show "same_pools md md'"
    using run body by (auto simp: char_superscript_def Let_def split: if_splits)
qed

lemma handler_safe_langle: "handler_safe char_langle_tag"
  unfolding handler_safe_def
proof (intro allI impI, elim conjE)
  fix ob md span offset ob' md' n
  assume run: "char_langle_tag ob md span offset = Some (ob', md', n)"
  show "same_pools md md'"
    using run
    by (auto simp: char_langle_tag_def Let_def split: if_splits prod.splits option.splits
        dest!: call_span_pools intro: popbuf_newbuf_pools)
qed


lemma call_span_eqs:
  "call_span cb ob arg md = Some (ob', md', r)
     \<Longrightarrow> work_bufs md' = work_bufs md \<and> max_nesting md' = max_nesting md"
  by (auto simp: call_span_def split: option.splits prod.splits)

lemma call_void_eqs:
  "call_void f ob arg md = (ob', md') \<Longrightarrow> work_bufs md' = work_bufs md \<and> max_nesting md' = max_nesting md"
  by (auto simp: call_void_def split: prod.splits)

lemma handler_safe_autolink_www: "handler_safe (char_autolink_www scan)"
  unfolding handler_safe_def
proof (intro allI impI, elim conjE)
  fix ob md span offset ob' md' n
  assume run: "char_autolink_www scan ob md span offset = Some (ob', md', n)"
  show "same_pools md md'"
    using run
    by (auto simp: char_autolink_www_def Let_def same_pools_def newbuf_def popbuf_def
        split: if_splits prod.splits option.splits dest!: call_span_eqs call_void_eqs)
qed

lemma handler_safe_autolink_plain: "handler_safe (char_autolink_plain scan altype)"
  unfolding handler_safe_def
proof (intro allI impI, elim conjE)
  fix ob md span offset ob' md' n
  assume run: "char_autolink_plain scan altype ob md span offset = Some (ob', md', n)"
  show "same_pools md md'"
    using run
    by (auto simp: char_autolink_plain_def Let_def same_pools_def newbuf_def popbuf_def
        split: if_splits prod.splits option.splits dest!: call_span_eqs)
qed


lemma span_only_refl [simp]: "span_only md md"
  by (auto simp: span_only_def intro: exI [of _ "work_bufs md BUFFER_SPAN"])

lemma span_only_trans: "span_only a b \<Longrightarrow> span_only b c \<Longrightarrow> span_only a c"
  by (auto simp: span_only_def)

lemma same_pools_span_only: "same_pools a b \<Longrightarrow> span_only a b"
  by (auto simp: span_only_def same_pools_def intro: exI [of _ "work_bufs a BUFFER_SPAN"])

lemma span_only_newbuf [simp]: "span_only md (newbuf md BUFFER_SPAN)"
  by (auto simp: span_only_def newbuf_def)

lemma span_only_step: "span_only a b \<Longrightarrow> span_only a (newbuf b BUFFER_SPAN)"
  by (rule span_only_trans [OF _ span_only_newbuf])

lemma char_link_cleanup_reset:
  "char_link_cleanup org ob md1 ret i = Some (ob', md', n) \<Longrightarrow> span_only md md1
     \<Longrightarrow> span_reset org md md'"
  by (auto simp: char_link_cleanup_def span_only_def span_reset_def)

lemma pool_depth_in_link_body [simp]: "pool_depth (md\<lparr>in_link_body := b\<rparr>) = pool_depth md"
  by (simp add: pool_depth_def)

lemma small_nesting_in_link_body [simp]: "small_nesting (md\<lparr>in_link_body := b\<rparr>) = small_nesting md"
  by (simp add: small_nesting_def)

lemma same_pools_in_link_body_left [simp]:
  "same_pools (md\<lparr>in_link_body := b\<rparr>) md' = same_pools md md'"
  by (simp add: same_pools_def)

lemma same_pools_in_link_body_right [simp]:
  "same_pools md (md'\<lparr>in_link_body := b\<rparr>) = same_pools md md'"
  by (simp add: same_pools_def)

lemma link_content_pools:
  assumes rec: "pool_safe rec" and small: "small_nesting md"
    and depth: "pool_depth md \<le> unat (max_nesting md) + 3"
    and run: "rec ob0 ((newbuf md BUFFER_SPAN)\<lparr>in_link_body := True\<rparr>) data = Some (content, md2)"
  shows "span_only md (md2\<lparr>in_link_body := False\<rparr>)"
proof -
  let ?m = "(newbuf md BUFFER_SPAN)\<lparr>in_link_body := True\<rparr>"
  have "pool_depth ?m \<le> unat (max_nesting ?m) + 4"
    using pool_depth_newbuf [of md BUFFER_SPAN] depth by (simp add: newbuf_def)
  moreover have "small_nesting ?m"
    using small by simp
  ultimately have "same_pools ?m md2"
    using rec run by (intro pool_safeD [of rec ?m]) 
  then have "same_pools (newbuf md BUFFER_SPAN) (md2\<lparr>in_link_body := False\<rparr>)"
    by simp
  then show ?thesis
    by (intro span_only_trans [OF span_only_newbuf same_pools_span_only])
qed

lemma char_link_render_reset:
  assumes rec: "pool_safe rec" and small: "small_nesting md0"
    and depth: "pool_depth md \<le> unat (max_nesting md) + 3" and sm: "small_nesting md"
    and base: "span_only md0 md"
    and run: "char_link_render rec org ob md data is_img txt_e i link_buf title_buf = Some (ob', md', n)"
  shows "span_reset org md0 md'"
proof -
  obtain content md3 where
    c: "(if txt_e > 1 then
              (let md1 = newbuf md BUFFER_SPAN
               in if is_img then Some (Some (slice data 1 txt_e), md1)
                  else
                    (case rec [] (md1\<lparr>in_link_body := True\<rparr>) (slice data 1 txt_e) of
                       None \<Rightarrow> None
                     | Some (content, md2) \<Rightarrow> Some (Some content, md2\<lparr>in_link_body := False\<rparr>)))
            else Some (None, md)) = Some (content, md3)"
    using run unfolding char_link_render_def by (auto split: option.splits)
  have s3: "span_only md md3"
    using c link_content_pools [OF rec sm depth]
    by (auto simp: Let_def split: if_splits option.splits)
  obtain u_link md4 where
    u: "(case link_buf of
                    Some l \<Rightarrow> (Some (unscape_text [] l), newbuf md3 BUFFER_SPAN)
                  | None \<Rightarrow> (None, md3)) = (u_link, md4)"
    by (cases link_buf) auto
  have s4: "span_only md md4"
    using u s3 by (auto split: option.splits intro: span_only_step)
  obtain ob5 md5 ret where
    cb: "(if is_img
                    then call_span (image_cb (rndr md4))
                           (if ob \<noteq> [] \<and> last ob = CHR ''!'' then butlast ob else ob)
                           (u_link, title_buf, content) md4
                    else call_span (link (rndr md4)) ob (u_link, title_buf, content) md4)
           = Some (ob5, md5, ret)"
    and fin: "char_link_cleanup org ob5 md5 ret i = Some (ob', md', n)"
    using run c u unfolding char_link_render_def by (auto simp: Let_def split: option.splits)
  have "same_pools md4 md5"
    using cb by (auto split: if_splits dest: call_span_pools)
  then have "span_only md0 md5"
    using base s4 by (blast intro: span_only_trans same_pools_span_only)
  with fin show ?thesis
    by (rule char_link_cleanup_reset)
qed


lemma link_text_id_span:
  "link_text_id md data txt_e nl = (id_buf, md1)
     \<Longrightarrow> span_only md md1 \<and> pool_depth md1 \<le> pool_depth md + 1 \<and> small_nesting md1 = small_nesting md"
  using pool_depth_newbuf [of md BUFFER_SPAN]
  by (auto simp: link_text_id_def split: if_splits)

lemma char_link_footnote_reset:
  assumes "char_link_footnote org ob md data txt_e i = Some (ob', md', n)"
  shows "span_reset org md md'"
  using assms
  by (auto simp: char_link_footnote_def char_link_cleanup_def span_reset_def Let_def
      split: if_splits option.splits dest!: call_span_eqs)

lemma if_chain3:
  "(if a then x else if b then y else z) = Some r \<Longrightarrow> (x = Some r \<Longrightarrow> P)
     \<Longrightarrow> (y = Some r \<Longrightarrow> P) \<Longrightarrow> (z = Some r \<Longrightarrow> P) \<Longrightarrow> P"
  by (auto split: if_splits)

lemma char_link_render_borrowed:
  assumes rec: "pool_safe rec" and small: "small_nesting md"
    and depth: "pool_depth md \<le> unat (max_nesting md) + 1"
    and m1: "md1 = (if A then newbuf md BUFFER_SPAN else md)"
    and m2: "md2 = (if B then newbuf md1 BUFFER_SPAN else md1)"
    and r: "char_link_render rec org ob md2 data is_img txt_e k lb tb = Some (ob', md', n)"
  shows "span_reset org md md'"
proof -
  have d1: "pool_depth md1 \<le> pool_depth md + 1"
    using m1 pool_depth_newbuf [of md BUFFER_SPAN] by auto
  have d2: "pool_depth md2 \<le> pool_depth md1 + 1"
    using m2 pool_depth_newbuf [of md1 BUFFER_SPAN] by auto
  have mx: "max_nesting md2 = max_nesting md"
    using m1 m2 by auto
  have "pool_depth md2 \<le> unat (max_nesting md2) + 3"
    using d1 d2 depth mx by simp
  moreover have "small_nesting md2"
    using m1 m2 small by auto
  moreover have "span_only md md2"
    using m1 m2 by (auto intro: span_only_step)
  ultimately show ?thesis
    using r rec small by (intro char_link_render_reset [of rec md md2]) 
qed

lemma char_link_inline_reset:
  assumes rec: "pool_safe rec" and small: "small_nesting md"
    and depth: "pool_depth md \<le> unat (max_nesting md) + 1"
    and run: "char_link_inline rec org ob md data is_img txt_e i = Some (ob', md', n)"
  shows "span_reset org md md'"
  using run unfolding char_link_inline_def Let_def
  apply (elim if_chain3)
    apply (erule char_link_cleanup_reset, simp)
   apply (erule char_link_cleanup_reset, simp)
  apply (erule char_link_render_borrowed [OF rec small depth refl refl])
  done

lemma upper_bits_unset:
  fixes x :: "64 word"
  assumes "unat x < 2 ^ 31" and "31 \<le> m"
  shows "\<not> bit x m"
proof
  assume "bit x m"
  then have "bit (unat x) m"
    by (simp add: bit_unsigned_iff)
  then have "odd (unat x div 2 ^ m)"
    by (simp add: bit_iff_odd)
  then have "unat x div 2 ^ m \<noteq> 0"
    by (intro notI) simp
  then have "2 ^ m \<le> unat x"
    by (simp add: div_eq_0_iff not_less)
  moreover have "(2::nat) ^ 31 \<le> 2 ^ m"
    using assms(2) by (intro power_increasing) simp_all
  ultimately show False
    using assms(1) by simp
qed

lemma int_cast_small:
  fixes x :: "64 word"
  assumes "unat x < 2 ^ 31"
  shows "scast (ucast x :: 32 word) = x"
proof (rule bit_word_eqI)
  fix n
  assume n: "n < LENGTH(64)"
  show "bit (scast (ucast x :: 32 word) :: 64 word) n \<longleftrightarrow> bit x n"
  proof (cases "n < 31")
    case True
    then show ?thesis
      using n by (simp add: bit_signed_iff bit_ucast_iff min_def)
  next
    case False
    then have "min (LENGTH(32) - Suc 0) n = 31"
      by simp
    then show ?thesis
      using n False upper_bits_unset [OF assms, of n] upper_bits_unset [OF assms, of 31]
      by (simp add: bit_signed_iff bit_ucast_iff)
  qed
qed


lemma span_only_max: "span_only md md1 \<Longrightarrow> max_nesting md1 = max_nesting md"
  by (simp add: span_only_def)

lemma link_after_id:
  assumes rec: "pool_safe rec" and small: "small_nesting md"
    and depth: "pool_depth md \<le> unat (max_nesting md)"
    and idb: "link_text_id md data txt_e nl = (id_buf, md1) \<or> md1 = md"
    and run: "(case find_link_ref (refs md1) id_buf of
                 None \<Rightarrow> char_link_cleanup org ob md1 False i
               | Some lr \<Rightarrow>
                   char_link_render rec org ob md1 data is_img txt_e k (lr_link lr) (lr_title lr))
              = Some (ob', md', n)"
  shows "span_reset org md md'"
proof -
  have s1: "span_only md md1" and d1: "pool_depth md1 \<le> pool_depth md + 1"
    and sm1: "small_nesting md1"
    using idb link_text_id_span [of md data txt_e nl id_buf md1] small by auto
  have "pool_depth md1 \<le> unat (max_nesting md1) + 3"
    using d1 depth span_only_max [OF s1] by simp
  then show ?thesis
    using run s1 sm1 rec small
    by (auto split: option.splits intro: char_link_cleanup_reset char_link_render_reset)
qed

lemma char_link_reference_reset:
  assumes rec: "pool_safe rec" and small: "small_nesting md"
    and depth: "pool_depth md \<le> unat (max_nesting md)"
    and run: "char_link_reference rec org ob md data is_img txt_e nl i = Some (ob', md', n)"
  shows "span_reset org md md'"
proof -
  note L = link_after_id [OF rec small depth]
  note L1 = L [OF disjI1] and L2 = L [where ?md1.0 = md, OF disjI2 [OF refl]]
  show ?thesis
    using run
    by (auto simp: char_link_reference_def Let_def split: if_splits prod.splits
        intro: char_link_cleanup_reset L1 L2)
qed

lemma char_link_shortcut_reset:
  assumes rec: "pool_safe rec" and small: "small_nesting md"
    and depth: "pool_depth md \<le> unat (max_nesting md)"
    and run: "char_link_shortcut rec org ob md data is_img txt_e nl i = Some (ob', md', n)"
  shows "span_reset org md md'"
proof -
  note L = link_after_id [OF rec small depth]
  note L1 = L [OF disjI1]
  show ?thesis
    using run
    by (auto simp: char_link_shortcut_def Let_def split: if_splits prod.splits intro: L1)
qed

lemma char_link_reset:
  assumes rec: "pool_safe rec" and small: "small_nesting md"
    and depth: "pool_depth md \<le> unat (max_nesting md)"
    and run: "char_link rec ob md span offset = Some (ob', md', n)"
  shows "span_reset (work_bufs md BUFFER_SPAN) md md'"
proof -
  have d1: "pool_depth md \<le> unat (max_nesting md) + 1"
    using depth by simp
  show ?thesis
    using run char_link_reference_reset [OF rec small depth]
      char_link_shortcut_reset [OF rec small depth] char_link_inline_reset [OF rec small d1]
    by (auto simp: char_link_def Let_def split: if_splits prod.splits
        intro: char_link_cleanup_reset char_link_footnote_reset)
qed

lemma handler_safe_link: "pool_safe rec \<Longrightarrow> handler_safe (char_link rec)"
  unfolding handler_safe_def
proof (intro allI impI, elim conjE)
  fix ob md span offset ob' md' n
  assume rec: "pool_safe rec" and small: "small_nesting md"
    and depth: "pool_depth md \<le> unat (max_nesting md)"
    and run: "char_link rec ob md span offset = Some (ob', md', n)"
  have "unat (work_bufs md BUFFER_SPAN) < 2 ^ 31"
    using small depth by (simp add: small_nesting_def pool_depth_def)
  then have "scast (ucast (work_bufs md BUFFER_SPAN) :: 32 word) = work_bufs md BUFFER_SPAN"
    by (rule int_cast_small)
  then show "same_pools md md'"
    using char_link_reset [OF rec small depth run]
    by (simp add: span_reset_def same_pools_def)
qed

lemma handler_safe_ptrs:
  "pool_safe rec \<Longrightarrow> handler_safe (markdown_char_ptrs sc rec action)"
  by (cases action)
    (simp_all add: markdown_char_ptrs_def handler_safe_emphasis handler_safe_delimited
      handler_safe_linebreak handler_safe_link handler_safe_langle handler_safe_escape
      handler_safe_entity handler_safe_autolink_www handler_safe_autolink_plain
      handler_safe_superscript char_codespan_def char_quote_def char_autolink_url_def
      char_autolink_email_def, simp add: handler_safe_def)


lemma not_exceeded_depth:
  assumes small: "small_nesting md" and depth: "pool_depth md \<le> unat (max_nesting md) + 4"
    and ok: "\<not> nesting_exceeded md"
  shows "pool_depth md \<le> unat (max_nesting md)"
proof -
  let ?s = "work_bufs md BUFFER_SPAN" and ?b = "work_bufs md BUFFER_BLOCK"
  have "unat ?s + unat ?b < 2 ^ 31"
    using small depth by (simp add: small_nesting_def pool_depth_def)
  also have "(2::nat) ^ 31 < 2 ^ LENGTH(64)"
    by simp
  finally have "unat (?s + ?b) = unat ?s + unat ?b"
    by (rule unat_add_lem [THEN iffD1])
  moreover have "unat (?s + ?b) \<le> unat (max_nesting md)"
    using ok by (simp add: nesting_exceeded_def word_le_nat_alt not_less)
  ultimately show ?thesis
    by (simp add: pool_depth_def)
qed

lemma same_pools_bound:
  "same_pools md md' \<Longrightarrow> small_nesting md \<Longrightarrow> pool_depth md \<le> unat (max_nesting md) + k
     \<Longrightarrow> small_nesting md' \<and> pool_depth md' \<le> unat (max_nesting md') + k"
  by (simp add: same_pools_def small_nesting_def pool_depth_def)

lemma parse_inline_step_pools:
  assumes safe: "\<And>a. handler_safe (ptrs a)" and small: "small_nesting md"
    and depth: "pool_depth md \<le> unat (max_nesting md)"
  shows "parse_inline_step ptrs ob md data i endp = Return (Some (ob', md')) \<Longrightarrow> same_pools md md'"
    and "parse_inline_step ptrs ob md data i endp = Continue (ob', md', i', endp') \<Longrightarrow> same_pools md md'"
proof -
  let ?end1 = "skip_while (\<lambda>c. active_char md c = MD_CHAR_NONE) data (length data) endp"
  obtain ob1 md1 where p: "put_normal_text ob md (slice data i ?end1) = (ob1, md1)"
    by (cases "put_normal_text ob md (slice data i ?end1)") auto
  have s1: "same_pools md md1"
    using p by (rule put_normal_text_pools)
  have b1: "small_nesting md1" "pool_depth md1 \<le> unat (max_nesting md1)"
    using same_pools_bound [OF s1 small, of 0] depth by simp_all
  have h: "same_pools md md2" if "ptrs a ob1 md1 data ?end1 = Some (ob2, md2, r)" for a ob2 md2 r
    using handler_safeD [OF safe b1 that] s1 by (blast intro: same_pools_trans)
  show "parse_inline_step ptrs ob md data i endp = Return (Some (ob', md')) \<Longrightarrow> same_pools md md'"
    using p s1 by (auto simp: parse_inline_step_def Let_def split: if_splits option.splits)
  show "parse_inline_step ptrs ob md data i endp = Continue (ob', md', i', endp') \<Longrightarrow> same_pools md md'"
    using p h by (auto simp: parse_inline_step_def Let_def split: if_splits option.splits)
qed

lemma parse_inline_loop_pools:
  "parse_inline_loop ptrs ob md data i endp = Some (ob', md') \<Longrightarrow> (\<And>a. handler_safe (ptrs a))
     \<Longrightarrow> small_nesting md \<Longrightarrow> pool_depth md \<le> unat (max_nesting md) \<Longrightarrow> same_pools md md'"
proof (induction ptrs ob md data i endp rule: parse_inline_loop.induct)
  case (1 ptrs ob md data i endp)
  show ?case
  proof (cases "i < length data")
    case False
    then show ?thesis
      using "1.prems"(1) by (subst (asm) parse_inline_loop.simps) simp
  next
    case True
    show ?thesis
    proof (cases "parse_inline_step ptrs ob md data i endp")
      case (Return r)
      then have "r = Some (ob', md')"
        using "1.prems"(1) True by (subst (asm) parse_inline_loop.simps) simp
      then show ?thesis
        using Return parse_inline_step_pools(1) [OF "1.prems"(2-4)] by simp
    next
      case (Continue st)
      obtain ob2 md2 i2 e2 where st: "st = (ob2, md2, i2, e2)"
        by (cases st) auto
      have run: "parse_inline_loop ptrs ob2 md2 data i2 e2 = Some (ob', md')"
        using "1.prems"(1) True Continue st by (subst (asm) parse_inline_loop.simps) simp
      have s2: "same_pools md md2"
        using Continue st parse_inline_step_pools(2) [OF "1.prems"(2-4)] by simp
      have b2: "small_nesting md2" "pool_depth md2 \<le> unat (max_nesting md2)"
        using same_pools_bound [OF s2 "1.prems"(3), of 0] "1.prems"(4) by simp_all
      have "same_pools md2 md'"
        using "1.IH" [OF True Continue [unfolded st] refl refl refl run "1.prems"(2) b2] .
      with s2 show ?thesis
        by (rule same_pools_trans)
    qed
  qed
qed

lemma pool_safe_body: "pool_safe rec \<Longrightarrow> pool_safe (parse_inline_body sc rec)"
  unfolding pool_safe_def [of "parse_inline_body sc rec"]
proof (intro allI impI, elim conjE)
  fix ob md data ob' md'
  assume rec: "pool_safe rec" and small: "small_nesting md"
    and depth: "pool_depth md \<le> unat (max_nesting md) + 4"
    and run: "parse_inline_body sc rec ob md data = Some (ob', md')"
  show "same_pools md md'"
  proof (cases "nesting_exceeded md")
    case True
    then show ?thesis
      using run by (simp add: parse_inline_body_def)
  next
    case False
    then have "parse_inline_loop (markdown_char_ptrs sc rec) ob md data 0 0 = Some (ob', md')"
      using run by (simp add: parse_inline_body_def)
    then show ?thesis
      using handler_safe_ptrs [OF rec] small not_exceeded_depth [OF small depth False]
      by (rule parse_inline_loop_pools)
  qed
qed

lemma pool_safe_parse_inline: "pool_safe (parse_inline sc fuel)"
proof (induction fuel)
  case 0
  show ?case
    by (simp add: pool_safe_def)
next
  case (Suc fuel)
  then show ?case
    by (simp add: pool_safe_body)
qed

lemma within_same: "same_pools md md' \<Longrightarrow> pool_within k md \<Longrightarrow> pool_within k md'"
  using same_pools_bound [of md md' k] by (simp add: pool_within_def)

lemma within_newbuf: "pool_within k md \<Longrightarrow> pool_within (k + 1) (newbuf md t)"
  using pool_depth_newbuf [of md t] by (simp add: pool_within_def)

lemma within_mono: "pool_within k md \<Longrightarrow> k \<le> k' \<Longrightarrow> pool_within k' md"
  by (simp add: pool_within_def)

lemma pool_safe_within:
  "pool_safe rec \<Longrightarrow> pool_within 4 md \<Longrightarrow> rec ob md data = Some (ob', md') \<Longrightarrow> same_pools md md'"
  unfolding pool_within_def by (blast intro: pool_safeD)

lemma call_opt_pools: "call_opt cb ob arg md = (ob', md') \<Longrightarrow> same_pools md md'"
  by (auto simp: call_opt_def split: option.splits dest: call_void_pools)

lemma call_req_pools: "call_req cb ob arg md = Some (ob', md') \<Longrightarrow> same_pools md md'"
  by (auto simp: call_req_def split: option.splits dest: call_void_pools)

lemma borrowed_within:
  assumes "pool_safe rec" and "pool_within 3 md" and "rec ob0 (newbuf md t) data = Some (work, md1)"
  shows "same_pools (newbuf md t) md1"
  using pool_safe_within [OF assms(1) _ assms(3)] within_newbuf [OF assms(2), of t] by simp

lemma borrowed_block:
  assumes "pool_safe rec" and "pool_within 3 md" and "rec ob0 (newbuf md t) data = Some (work, md1)"
    and "call_opt cb ob arg md1 = (ob2, md2)"
  shows "same_pools md (popbuf md2 t)"
  using borrowed_within [OF assms(1-3)] call_opt_pools [OF assms(4)]
  by (blast intro: same_pools_trans popbuf_newbuf_pools)

lemma parse_atxheader_pools:
  assumes "pool_safe reci" and "pool_within 3 md"
    and "parse_atxheader reci ob md data = Some (ob', md', n)"
  shows "same_pools md md'"
  using assms(3)
  by (auto simp: parse_atxheader_def Let_def split: if_splits option.splits prod.splits
      intro: borrowed_block [OF assms(1,2)])

lemma parse_blockquote_pools:
  assumes "pool_safe recb" and "pool_within 3 md"
    and "parse_blockquote recb ob md data = Some (ob', md', n)"
  shows "same_pools md md'"
  using assms(3)
  by (auto simp: parse_blockquote_def Let_def split: if_splits option.splits prod.splits
      intro: borrowed_block [OF assms(1,2)])

lemma render_paragraph_pools:
  assumes "pool_safe reci" and "pool_within 3 md"
    and "render_paragraph reci ob md work = Some (ob', md')"
  shows "same_pools md md'"
  using assms(3)
  by (auto simp: render_paragraph_def Let_def split: if_splits option.splits prod.splits
      intro: borrowed_block [OF assms(1,2)])

lemma parse_paragraph_pools:
  assumes reci: "pool_safe reci" and w: "pool_within 3 md"
    and run: "parse_paragraph find_block_tag reci ob md data = Some (ob', md', n)"
  shows "same_pools md md'"
proof -
  have title: "same_pools md (popbuf md3 BUFFER_SPAN)"
    if s: "same_pools md md1" and r: "reci [] (newbuf md1 BUFFER_SPAN) title = Some (hw, md2)"
      and c: "call_opt cb ob1 arg md2 = (ob3, md3)" for md1 title hw md2 cb ob1 arg ob3 md3
    using borrowed_block [OF reci within_same [OF s w] r c] s by (rule same_pools_trans [rotated])
  note title0 = title [OF same_pools_refl]
  note title1 = title [OF render_paragraph_pools [OF reci w]]
  show ?thesis
    using run render_paragraph_pools [OF reci w]
    by (auto simp: parse_paragraph_def Let_def
        split: if_splits option.splits prod.splits intro: title0 title1)
qed

lemma parse_fencedcode_pools:
  "parse_fencedcode ob md data = (ob', md', n) \<Longrightarrow> same_pools md md'"
  by (auto simp: parse_fencedcode_def Let_def split: if_splits prod.splits
      dest!: call_opt_pools intro: popbuf_newbuf_pools)

lemma parse_blockcode_pools:
  "parse_blockcode ob md data = (ob', md', n) \<Longrightarrow> same_pools md md'"
  by (auto simp: parse_blockcode_def Let_def split: if_splits prod.splits
      dest!: call_opt_pools intro: popbuf_newbuf_pools)

lemma html_rendered_pools:
  "html_rendered ob md data n do_render = (ob', md', n') \<Longrightarrow> same_pools md md'"
  by (auto simp: html_rendered_def split: if_splits prod.splits dest!: call_opt_pools)

lemma parse_htmlblock_pools:
  "parse_htmlblock find_block_tag ob md data do_render = (ob', md', n) \<Longrightarrow> same_pools md md'"
  unfolding parse_htmlblock_def Let_def
  by (auto split: if_splits option.splits dest!: html_rendered_pools)


lemma pop2_same:
  "same_pools (newbuf (newbuf md BUFFER_SPAN) BUFFER_SPAN) md'
     \<Longrightarrow> same_pools md (popbuf (popbuf md' BUFFER_SPAN) BUFFER_SPAN)"
  by (intro popbuf_newbuf_pools)

lemma pop2_mixed:
  "same_pools (newbuf (newbuf md BUFFER_SPAN) BUFFER_BLOCK) md'
     \<Longrightarrow> same_pools md (popbuf (popbuf md' BUFFER_SPAN) BUFFER_BLOCK)"
  by (auto simp: same_pools_def newbuf_def popbuf_def fun_eq_iff)

lemma two_parses:
  assumes "pool_safe r1" and "pool_safe r2" and "pool_within 4 md1"
    and "r1 o1 md1 d1 = Some (ib, md2)" and "r2 ib md2 d2 = Some (ib', md3)"
  shows "same_pools md1 md3"
proof -
  have s: "same_pools md1 md2"
    using assms(1,3,4) by (rule pool_safe_within)
  have "same_pools md2 md3"
    using assms(2) within_same [OF s assms(3)] assms(5) by (rule pool_safe_within)
  with s show ?thesis
    by (rule same_pools_trans)
qed

lemma parse_listitem_pools:
  assumes reci: "pool_safe reci" and recb: "pool_safe recb" and w: "pool_within 2 md"
    and run: "parse_listitem reci recb ob md data flags = Some (ob', md', n, flags')"
  shows "same_pools md md'"
proof -
  let ?md1 = "newbuf (newbuf md BUFFER_SPAN) BUFFER_SPAN"
  have w1: "pool_within 4 ?md1"
    using within_newbuf [OF within_newbuf [OF w, of BUFFER_SPAN], of BUFFER_SPAN] by simp
  note one = pool_safe_within [OF reci w1] pool_safe_within [OF recb w1]
  note two = two_parses [OF reci recb w1] two_parses [OF recb recb w1]
  have tail: "same_pools md (popbuf (popbuf md4 BUFFER_SPAN) BUFFER_SPAN)"
    if "same_pools ?md1 md3" and "call_opt cb ob arg md3 = (ob4, md4)" for md3 cb arg ob4 md4
    using that(1) call_opt_pools [OF that(2)] by (blast intro: pop2_same same_pools_trans)
  show ?thesis
    using run
    by (auto simp: parse_listitem_def Let_def split: if_splits option.splits prod.splits
        intro: tail [OF one(1)] tail [OF one(2)] tail [OF two(1)] tail [OF two(2)])
qed

lemma parse_list_loop_pools:
  "parse_list_loop item work md data i flags = Some (work', md', n, flags')
     \<Longrightarrow> (\<And>work md data flags work' md' n flags'.
            pool_within 2 md \<Longrightarrow> item work md data flags = Some (work', md', n, flags')
              \<Longrightarrow> same_pools md md')
     \<Longrightarrow> pool_within 2 md \<Longrightarrow> same_pools md md'"
proof (induction item work md data i flags rule: parse_list_loop.induct)
  case (1 item work md data i flags)
  show ?case
  proof (cases "i < length data")
    case False
    then show ?thesis
      using "1.prems"(1) by (subst (asm) parse_list_loop.simps) simp
  next
    case True
    from "1.prems"(1) True obtain work1 md1 j flags1
      where itm: "item work md (drop i data) flags = Some (work1, md1, j, flags1)"
      by (subst (asm) parse_list_loop.simps) (auto split: option.splits)
    have s1: "same_pools md md1"
      using "1.prems"(3) itm by (rule "1.prems"(2))
    show ?thesis
    proof (cases "j = 0 \<or> HOEDOWN_LI_END \<in> flags1")
      case True
      then have "md' = md1"
        using "1.prems"(1) \<open>i < length data\<close> itm by (subst (asm) parse_list_loop.simps) auto
      with s1 show ?thesis
        by simp
    next
      case False
      then have run: "parse_list_loop item work1 md1 data (i + j) flags1
                        = Some (work', md', n, flags')"
        using "1.prems"(1) \<open>i < length data\<close> itm by (subst (asm) parse_list_loop.simps) auto
      have "same_pools md1 md'"
        using "1.IH" [OF \<open>i < length data\<close> itm refl refl refl False run "1.prems"(2)
            within_same [OF s1 "1.prems"(3)]] .
      with s1 show ?thesis
        by (rule same_pools_trans)
    qed
  qed
qed

lemma parse_list_pools:
  assumes reci: "pool_safe reci" and recb: "pool_safe recb" and w: "pool_within 1 md"
    and run: "parse_list reci recb ob md data flags = Some (ob', md', n)"
  shows "same_pools md md'"
proof -
  from run obtain work md1 i flags1 ob2 md2
    where l: "parse_list_loop (parse_listitem reci recb) [] (newbuf md BUFFER_BLOCK) data 0 flags
                = Some (work, md1, i, flags1)"
      and c: "call_opt (list_cb (rndr md1)) ob (work, flags1) md1 = (ob2, md2)"
      and r: "md' = popbuf md2 BUFFER_BLOCK"
    by (auto simp: parse_list_def split: option.splits prod.splits)
  have "pool_within 2 (newbuf md BUFFER_BLOCK)"
    using within_newbuf [OF w, of BUFFER_BLOCK] by (simp add: numeral_2_eq_2)
  then have "same_pools (newbuf md BUFFER_BLOCK) md1"
    using l parse_listitem_pools [OF reci recb] by (intro parse_list_loop_pools [OF l]) auto
  then show ?thesis
    using call_opt_pools [OF c] r by (blast intro: same_pools_trans popbuf_newbuf_pools)
qed

lemma parse_footnote_def_pools:
  assumes "pool_safe recb" and "pool_within 3 md"
    and "parse_footnote_def recb ob md k data = Some (ob', md')"
  shows "same_pools md md'"
  using assms(3)
  by (auto simp: parse_footnote_def_def Let_def split: if_splits option.splits prod.splits
      intro: borrowed_block [OF assms(1,2)])

lemma parse_footnote_items_pools:
  "parse_footnote_items fuel recb work md k = Some (work', md') \<Longrightarrow> pool_safe recb
     \<Longrightarrow> pool_within 3 md \<Longrightarrow> same_pools md md'"
proof (induction fuel arbitrary: work md k)
  case 0
  then show ?case
    by simp
next
  case (Suc fuel)
  show ?case
  proof (cases "k < length (footnotes_used md)")
    case False
    then show ?thesis
      using Suc.prems(1) by simp
  next
    case True
    let ?ref = "footnotes_found md ! (footnotes_used md ! k)"
    from Suc.prems(1) True obtain work1 md1
      where d: "parse_footnote_def recb work md (num ?ref) (contents ?ref) = Some (work1, md1)"
        and run: "parse_footnote_items fuel recb work1 md1 (k + 1) = Some (work', md')"
      by (auto simp: Let_def split: option.splits)
    have s1: "same_pools md md1"
      using Suc.prems(2,3) d by (rule parse_footnote_def_pools)
    have "same_pools md1 md'"
      using run Suc.prems(2) within_same [OF s1 Suc.prems(3)] by (rule Suc.IH)
    with s1 show ?thesis
      by (rule same_pools_trans)
  qed
qed

lemma parse_footnote_list_pools:
  assumes recb: "pool_safe recb" and w: "pool_within 2 md"
    and run: "parse_footnote_list fuel recb ob md = Some (ob', md')"
  shows "same_pools md md'"
proof (cases "length (footnotes_used md) = 0")
  case True
  then show ?thesis
    using run by (simp add: parse_footnote_list_def)
next
  case False
  from run False obtain work md1 ob2 md2
    where l: "parse_footnote_items fuel recb [] (newbuf md BUFFER_BLOCK) 0 = Some (work, md1)"
      and c: "call_opt (footnotes (rndr md1)) ob work md1 = (ob2, md2)"
      and r: "md' = popbuf md2 BUFFER_BLOCK"
    by (auto simp: parse_footnote_list_def split: option.splits prod.splits)
  have "pool_within 3 (newbuf md BUFFER_BLOCK)"
    using within_newbuf [OF w, of BUFFER_BLOCK] by simp
  with l recb have "same_pools (newbuf md BUFFER_BLOCK) md1"
    by (rule parse_footnote_items_pools)
  then show ?thesis
    using call_opt_pools [OF c] r by (blast intro: same_pools_trans popbuf_newbuf_pools)
qed


lemma table_cells_pools:
  "table_cells reci row_work md data columns col_data header_flag i col = Some (row_work', md', col')
     \<Longrightarrow> pool_safe reci \<Longrightarrow> pool_within 3 md \<Longrightarrow> same_pools md md'"
proof (induction "columns - col" arbitrary: row_work md i col)
  case 0
  then show ?case
    by (subst (asm) table_cells.simps) (auto split: if_splits)
next
  case (Suc k)
  show ?case
  proof (cases "col < columns \<and> i < length data")
    case False
    then show ?thesis
      using Suc.prems(1) by (subst (asm) table_cells.simps) (auto split: if_splits)
  next
    case True
    let ?start = "skip_while isspace_md data (length data) i"
    let ?i1 = "skip_while (\<lambda>c. c \<noteq> CHR ''|'') data (length data) ?start"
    from Suc.prems(1) True obtain cell_work md2 row_work1 md3 arg cell
      where a: "reci [] (newbuf md BUFFER_SPAN) cell = Some (cell_work, md2)"
        and b: "call_req (table_cell (rndr md2)) row_work arg md2 = Some (row_work1, md3)"
        and c: "table_cells reci row_work1 (popbuf md3 BUFFER_SPAN) data columns col_data
                  header_flag (?i1 + 1) (col + 1) = Some (row_work', md', col')"
      by (subst (asm) table_cells.simps) (auto simp: Let_def split: option.splits)
    have s1: "same_pools md (popbuf md3 BUFFER_SPAN)"
      using borrowed_within [OF Suc.prems(2,3) a] call_req_pools [OF b]
      by (blast intro: same_pools_trans popbuf_newbuf_pools)
    have "k = columns - (col + 1)"
      using Suc.hyps(2) by simp
    then have "same_pools (popbuf md3 BUFFER_SPAN) md'"
      using c Suc.prems(2) within_same [OF s1 Suc.prems(3)] by (rule Suc.hyps(1))
    with s1 show ?thesis
      by (rule same_pools_trans)
  qed
qed

lemma table_empty_cells_pools:
  "table_empty_cells row_work md columns col_data header_flag col = Some (row_work', md')
     \<Longrightarrow> same_pools md md'"
proof (induction "columns - col" arbitrary: row_work md col)
  case 0
  then show ?case
    by (subst (asm) table_empty_cells.simps) simp
next
  case (Suc k)
  show ?case
  proof (cases "col < columns")
    case False
    then show ?thesis
      using Suc.prems(1) by (subst (asm) table_empty_cells.simps) simp
  next
    case True
    from Suc.prems(1) True obtain row_work1 md1 arg
      where b: "call_req (table_cell (rndr md)) row_work arg md = Some (row_work1, md1)"
        and c: "table_empty_cells row_work1 md1 columns col_data header_flag (col + 1)
                  = Some (row_work', md')"
      by (subst (asm) table_empty_cells.simps) (auto simp: Let_def split: option.splits)
    have "k = columns - (col + 1)"
      using Suc.hyps(2) by simp
    then have "same_pools md1 md'"
      using c by (rule Suc.hyps(1))
    with call_req_pools [OF b] show ?thesis
      by (rule same_pools_trans)
  qed
qed

lemma parse_table_row_pools:
  assumes reci: "pool_safe reci" and w: "pool_within 2 md"
    and run: "parse_table_row reci ob md data columns col_data header_flag = Some (ob', md')"
  shows "same_pools md md'"
proof (cases "table_cell (rndr md) = None \<or> table_row (rndr md) = None")
  case True
  then show ?thesis
    using run by (auto simp: parse_table_row_def)
next
  case False
  from run False obtain i0 row_work md2 col row_work2 md3 ob4 md4
    where a: "table_cells reci [] (newbuf md BUFFER_SPAN) data columns col_data header_flag i0 0
                = Some (row_work, md2, col)"
      and b: "table_empty_cells row_work md2 columns col_data header_flag col
                = Some (row_work2, md3)"
      and c: "call_req (table_row (rndr md3)) ob row_work2 md3 = Some (ob4, md4)"
      and r: "md' = popbuf md4 BUFFER_SPAN"
    by (auto simp: parse_table_row_def Let_def split: option.splits)
  have "pool_within 3 (newbuf md BUFFER_SPAN)"
    using within_newbuf [OF w, of BUFFER_SPAN] by simp
  with a reci have "same_pools (newbuf md BUFFER_SPAN) md2"
    by (rule table_cells_pools)
  then show ?thesis
    using table_empty_cells_pools [OF b] call_req_pools [OF c] r
    by (blast intro: same_pools_trans popbuf_newbuf_pools)
qed

lemma parse_table_header_pools:
  assumes reci: "pool_safe reci" and w: "pool_within 2 md"
    and run: "parse_table_header reci ob md data = Some (ob', md', n, columns, col_data)"
  shows "same_pools md md'"
  using run parse_table_row_pools [OF reci w]
  by (auto simp: parse_table_header_def Let_def split: if_splits option.splits prod.splits)

lemma table_rows_pools:
  "table_rows reci body_work md data columns col_data i = Some (body_work', md', n)
     \<Longrightarrow> pool_safe reci \<Longrightarrow> pool_within 2 md \<Longrightarrow> same_pools md md'"
proof (induction reci body_work md data columns col_data i rule: table_rows.induct)
  case (1 reci body_work md data columns col_data i)
  let ?i1 = "skip_while (\<lambda>c. c \<noteq> CHR 0x0A) data (length data) i"
  let ?pipes = "length (filter (\<lambda>c. c = CHR ''|'') (slice data i ?i1))"
  show ?case
  proof (cases "i < length data \<and> \<not> (?pipes = 0 \<or> ?i1 = length data)")
    case False
    then show ?thesis
      using "1.prems"(1) by (subst (asm) table_rows.simps) (auto simp: Let_def split: if_splits)
  next
    case True
    from "1.prems"(1) True obtain body_work1 md1
      where a: "parse_table_row reci body_work md (slice data i ?i1) columns col_data {}
                  = Some (body_work1, md1)"
        and c: "table_rows reci body_work1 md1 data columns col_data (?i1 + 1)
                  = Some (body_work', md', n)"
      by (subst (asm) table_rows.simps) (auto simp: Let_def split: option.splits)
    have s1: "same_pools md md1"
      using "1.prems"(2,3) a by (rule parse_table_row_pools)
    have "same_pools md1 md'"
      using "1.IH" [OF _ refl refl refl _ a refl c "1.prems"(2) within_same [OF s1 "1.prems"(3)]]
        True by simp
    with s1 show ?thesis
      by (rule same_pools_trans)
  qed
qed

lemma parse_table_pools:
  assumes reci: "pool_safe reci" and w: "pool_within 0 md"
    and run: "parse_table reci ob md data = Some (ob', md', n)"
  shows "same_pools md md'"
proof -
  let ?md1 = "newbuf (newbuf md BUFFER_SPAN) BUFFER_BLOCK"
  have w1: "pool_within 2 ?md1"
    using within_newbuf [OF within_newbuf [OF w, of BUFFER_SPAN], of BUFFER_BLOCK]
    by (simp add: numeral_2_eq_2)
  from run obtain header_work md2 i columns col_data
    where h: "parse_table_header reci [] ?md1 data = Some (header_work, md2, i, columns, col_data)"
    by (auto simp: parse_table_def Let_def split: option.splits)
  have s1: "same_pools ?md1 md2"
    using reci w1 h by (rule parse_table_header_pools)
  show ?thesis
  proof (cases "i > 0")
    case False
    then have "md' = popbuf (popbuf md2 BUFFER_SPAN) BUFFER_BLOCK"
      using run h by (simp add: parse_table_def Let_def)
    then show ?thesis
      using pop2_mixed [OF s1] by simp
  next
    case True
    from run h True obtain body_work md3 i1 ob4 md4
      where b: "table_rows reci [] md2 data columns col_data i = Some (body_work, md3, i1)"
        and c: "call_opt (table (rndr md3)) ob (header_work, body_work) md3 = (ob4, md4)"
        and r: "md' = popbuf (popbuf md4 BUFFER_SPAN) BUFFER_BLOCK"
      by (auto simp: parse_table_def Let_def split: option.splits prod.splits)
    have "same_pools md2 md3"
      using b reci within_same [OF s1 w1] by (rule table_rows_pools)
    then have "same_pools ?md1 md4"
      using s1 call_opt_pools [OF c] by (blast intro: same_pools_trans)
    then show ?thesis
      using r pop2_mixed by simp
  qed
qed


lemma parse_block_one_pools:
  assumes reci: "pool_safe reci" and recb: "pool_safe recb" and w: "pool_within 0 md"
    and run: "parse_block_one find_block_tag reci recb ob md data = Some (ob', md', n)"
  shows "same_pools md md'"
proof (cases "is_atxheader md data")
  case True
  then have "parse_atxheader reci ob md data = Some (ob', md', n)"
    using run by (simp add: parse_block_one_def)
  with reci within_mono [OF w] show ?thesis
    by (rule parse_atxheader_pools) simp
next
  case False
  define h where "h = (if data ! 0 = CHR ''<'' \<and> blockhtml (rndr md) \<noteq> None
                       then parse_htmlblock find_block_tag ob md data True else (ob, md, 0))"
  obtain ob1 md1 i1 where h: "h = (ob1, md1, i1)"
    by (cases h) auto
  have s1: "same_pools md md1"
    using h parse_htmlblock_pools [of find_block_tag ob md data True ob1 md1 i1]
    by (auto simp: h_def split: if_splits)
  define f where "f = (if HOEDOWN_EXT_FENCED_CODE \<in> ext_flags md1
                       then parse_fencedcode ob1 md1 data else (ob1, md1, 0))"
  obtain ob2 md2 i2 where f: "f = (ob2, md2, i2)"
    by (cases f) auto
  have s2: "same_pools md md2"
    using f parse_fencedcode_pools [of ob1 md1 data ob2 md2 i2] s1
    by (auto simp: f_def split: if_splits intro: same_pools_trans)
  define t where "t = (if HOEDOWN_EXT_TABLES \<in> ext_flags md2
                       then parse_table reci ob2 md2 data else Some (ob2, md2, 0))"
  have s3: "same_pools md md3" if "t = Some (ob3, md3, i3)" for ob3 md3 i3
    using that parse_table_pools [OF reci within_same [OF s2 w], of ob2 data ob3 md3 i3] s2
    by (auto simp: t_def split: if_splits intro: same_pools_trans)
  have run1: "(if i1 \<noteq> 0 then Some (ob1, md1, i1)
       else if is_empty data \<noteq> 0 then Some (ob1, md1, is_empty data)
       else if is_hrule data then
         (case call_opt (hrule (rndr md1)) ob1 () md1 of (ob2, md2) \<Rightarrow>
            Some (ob2, md2, skip_while (\<lambda>c. c \<noteq> CHR 0x0A) data (length data) 0 + 1))
       else if i2 \<noteq> 0 then Some (ob2, md2, i2)
       else
         (case t of
            None \<Rightarrow> None
          | Some (ob3, md3, i3) \<Rightarrow>
              if i3 \<noteq> 0 then Some (ob3, md3, i3)
              else if prefix_quote data \<noteq> 0 then parse_blockquote recb ob3 md3 data
              else if HOEDOWN_EXT_DISABLE_INDENTED_CODE \<notin> ext_flags md3 \<and> prefix_code data \<noteq> 0
              then Some (parse_blockcode ob3 md3 data)
              else if prefix_uli data \<noteq> 0 then parse_list reci recb ob3 md3 data {}
              else if prefix_oli data \<noteq> 0
              then parse_list reci recb ob3 md3 data {HOEDOWN_LIST_ORDERED}
              else parse_paragraph find_block_tag reci ob3 md3 data))
       = Some (ob', md', n)"
    using run unfolding parse_block_one_def t_def
    by (simp only: False if_False h [unfolded h_def] f [unfolded f_def] prod.case)
  have last: "same_pools md md'"
    if t: "t = Some (ob3, md3, i3)"
      and r: "parse_blockquote recb ob3 md3 data = Some (ob', md', n)
              \<or> parse_blockcode ob3 md3 data = (ob', md', n)
              \<or> parse_list reci recb ob3 md3 data fl = Some (ob', md', n)
              \<or> parse_paragraph find_block_tag reci ob3 md3 data = Some (ob', md', n)"
    for ob3 md3 i3 fl
  proof -
    have w3: "pool_within 0 md3"
      using s3 [OF t] w by (rule within_same)
    have w3k: "pool_within k md3" for k
      using within_mono [OF w3, of k] by simp
    have "same_pools md3 md'"
      using r
      by (auto intro: parse_blockquote_pools [OF recb w3k] parse_blockcode_pools
          parse_list_pools [OF reci recb w3k] parse_paragraph_pools [OF reci w3k])
    with s3 [OF t] show ?thesis
      by (rule same_pools_trans)
  qed
  show ?thesis
  proof (cases "i1 \<noteq> 0 \<or> is_empty data \<noteq> 0")
    case True
    then show ?thesis
      using run1 s1 by (auto split: if_splits)
  next
    case a: False
    show ?thesis
    proof (cases "is_hrule data")
      case True
      then show ?thesis
        using run1 a s1 by (auto split: prod.splits dest!: call_opt_pools intro: same_pools_trans)
    next
      case b: False
      show ?thesis
      proof (cases "i2 \<noteq> 0")
        case True
        then show ?thesis
          using run1 a b s2 by auto
      next
        case c: False
        from run1 a b c obtain ob3 md3 i3 where t: "t = Some (ob3, md3, i3)"
          by (auto split: option.splits)
        show ?thesis
        proof (cases "i3 \<noteq> 0")
          case True
          then show ?thesis
            using run1 a b c t s3 [OF t] by auto
        next
          case False
          then show ?thesis
            using run1 a b c t last [OF t, of "{}"] last [OF t, of "{HOEDOWN_LIST_ORDERED}"]
            by (auto split: if_splits)
        qed
      qed
    qed
  qed
qed

lemma parse_block_loop_pools:
  "parse_block_loop fuel one ob md data beg = Some (ob', md')
     \<Longrightarrow> (\<And>ob md data ob' md' n. pool_within 0 md \<Longrightarrow> one ob md data = Some (ob', md', n)
            \<Longrightarrow> same_pools md md')
     \<Longrightarrow> pool_within 0 md \<Longrightarrow> same_pools md md'"
proof (induction fuel arbitrary: ob md beg)
  case 0
  then show ?case
    by simp
next
  case (Suc fuel)
  show ?case
  proof (cases "beg < length data")
    case False
    then show ?thesis
      using Suc.prems(1) by simp
  next
    case True
    from Suc.prems(1) True obtain ob1 md1 n
      where a: "one ob md (drop beg data) = Some (ob1, md1, n)"
        and c: "parse_block_loop fuel one ob1 md1 data (beg + n) = Some (ob', md')"
      by (auto split: option.splits)
    have s1: "same_pools md md1"
      using Suc.prems(3) a by (rule Suc.prems(2))
    have "same_pools md1 md'"
      using c Suc.prems(2) within_same [OF s1 Suc.prems(3)] by (rule Suc.IH)
    with s1 show ?thesis
      by (rule same_pools_trans)
  qed
qed

lemma pool_safe_block_body:
  assumes reci: "pool_safe reci" and recb: "pool_safe recb"
  shows "pool_safe (parse_block_body find_block_tag reci recb fuel)"
  unfolding pool_safe_def [of "parse_block_body find_block_tag reci recb fuel"]
proof (intro allI impI, elim conjE)
  fix ob md data ob' md'
  assume small: "small_nesting md"
    and depth: "pool_depth md \<le> unat (max_nesting md) + 4"
    and run: "parse_block_body find_block_tag reci recb fuel ob md data = Some (ob', md')"
  show "same_pools md md'"
  proof (cases "nesting_exceeded md")
    case True
    then show ?thesis
      using run by (simp add: parse_block_body_def)
  next
    case False
    then have l: "parse_block_loop fuel (parse_block_one find_block_tag reci recb) ob md data 0
                    = Some (ob', md')"
      using run by (simp add: parse_block_body_def)
    have w: "pool_within 0 md"
      using small not_exceeded_depth [OF small depth False] by (simp add: pool_within_def)
    show ?thesis
      using l parse_block_one_pools [OF reci recb] w by (rule parse_block_loop_pools)
  qed
qed

lemma pool_safe_parse_block: "pool_safe (parse_block sc find_block_tag fuel)"
proof (induction fuel)
  case 0
  show ?case
    by (simp add: pool_safe_def)
next
  case (Suc fuel)
  show ?case
    unfolding parse_block.simps by (intro pool_safe_block_body pool_safe_parse_inline Suc)
qed

lemma same_pools_refs [simp]: "same_pools (md\<lparr>refs := r\<rparr>) md' = same_pools md md'"
  by (simp add: same_pools_def)

lemma same_pools_footnotes_found [simp]:
  "same_pools (md\<lparr>footnotes_found := l\<rparr>) md' = same_pools md md'"
  by (simp add: same_pools_def)

lemma same_pools_footnotes_used [simp]:
  "same_pools (md\<lparr>footnotes_used := l\<rparr>) md' = same_pools md md'"
  by (simp add: same_pools_def)

lemma first_pass_pools:
  "first_pass fuel footnotes_enabled document beg buf md = Some (buf', md')
     \<Longrightarrow> same_pools md md'"
proof (induction fuel arbitrary: footnotes_enabled beg buf md)
  case 0
  then show ?case
    by simp
next
  case (Suc fuel)
  from Suc.prems show ?case
    by (auto simp: Let_def split: if_splits option.splits prod.splits dest!: Suc.IH)
qed

lemma render_pools:
  assumes small: "small_nesting md"
    and empty: "work_bufs md BUFFER_SPAN = 0" "work_bufs md BUFFER_BLOCK = 0"
    and run: "hoedown_markdown_render sc find_block_tag fuel ob document md = Some (ob', md')"
  shows "same_pools md md'"
proof -
  define fe where "fe = (HOEDOWN_EXT_FOOTNOTES \<in> ext_flags md)"
  define md1 where "md1 = (if fe then md\<lparr>refs := refs_empty, footnotes_found := [],
                                          footnotes_used := []\<rparr>
                           else md\<lparr>refs := refs_empty\<rparr>)"
  define beg :: nat where "beg = (if length document \<ge> 3 \<and> take 3 document = UTF8_BOM then 3 else 0)"
  have w: "pool_within 0 md"
    using small empty by (simp add: pool_within_def pool_depth_def)
  have s1: "same_pools md md1"
    by (simp add: md1_def same_pools_def)
  from run obtain buf md2 ob1 md3 ob2 md4 ob3 md5
    where a: "first_pass fuel fe document beg [] md1 = Some (buf, md2)"
      and b: "call_opt (doc_header (rndr md2)) ob () md2 = (ob1, md3)"
      and c: "(if buf \<noteq> [] then
                 parse_block sc find_block_tag fuel ob1 md3
                   (if last buf \<noteq> CHR 0x0A \<and> last buf \<noteq> CHR 0x0D
                    then buf @ [CHR 0x0A] else buf)
               else Some (ob1, md3)) = Some (ob2, md4)"
      and d: "(if fe then parse_footnote_list fuel (parse_block sc find_block_tag fuel) ob2 md4
               else Some (ob2, md4)) = Some (ob3, md5)"
      and e: "call_opt (doc_footer (rndr md5)) ob3 () md5 = (ob', md')"
    unfolding hoedown_markdown_render_def Let_def fe_def [symmetric] md1_def beg_def
    by (auto simp: fe_def [symmetric] split: option.splits prod.splits if_splits)
  have s3: "same_pools md md3"
    using s1 first_pass_pools [OF a] call_opt_pools [OF b] by (blast intro: same_pools_trans)
  have w3: "pool_within 0 md3"
    using s3 w by (rule within_same)
  have w3k: "pool_within k md3" for k
    using within_mono [OF w3, of k] by simp
  have "same_pools md3 md4"
    using c by (auto split: if_splits intro: pool_safe_within [OF pool_safe_parse_block w3k])
  with s3 have s4: "same_pools md md4"
    by (rule same_pools_trans)
  have w4: "pool_within 0 md4"
    using s4 w by (rule within_same)
  have w4k: "pool_within k md4" for k
    using within_mono [OF w4, of k] by simp
  have "same_pools md4 md5"
    using d
    by (auto split: if_splits intro: parse_footnote_list_pools [OF pool_safe_parse_block w4k])
  then show ?thesis
    using s4 call_opt_pools [OF e] by (blast intro: same_pools_trans)
qed

text \<open>
  C5: after \<open>hoedown_markdown_render\<close> has returned, the sizes of the span pool and of the
  block pool are both 0, for every document, every set of callbacks, every set of
  extensions and every autolink scanner: each function of the parser gives back the
  buffers it has borrowed, on every path that returns.  The parser is entered with both
  pools empty, as \<open>hoedown_markdown_new\<close> makes it and as a render leaves it, and with a
  nesting bound below \<open>2^31 - 8\<close>, so that the sizes of the pools go unchanged through the
  cast \<open>(int)org_work_size\<close> with which \<open>char_link\<close> restores the span pool.  The bound is
  left as it was, so the same holds of the next render.
\<close>

theorem render_pools_empty:
  assumes "work_bufs md BUFFER_SPAN = 0" and "work_bufs md BUFFER_BLOCK = 0"
    and "unat (max_nesting md) + 8 < 2 ^ 31"
    and "hoedown_markdown_render sc find_block_tag fuel ob document md = Some (ob', md')"
  shows "work_bufs md' BUFFER_SPAN = 0 \<and> work_bufs md' BUFFER_BLOCK = 0
         \<and> max_nesting md' = max_nesting md"
proof -
  have "small_nesting md"
    using assms(3) by (simp add: small_nesting_def)
  then have "same_pools md md'"
    using assms(1,2,4) by (rule render_pools)
  then show ?thesis
    using assms(1,2) by (simp add: same_pools_def)
qed

theorem render_pools_empty_witness:
  "map_option (\<lambda>(ob, md). (ob, work_bufs md BUFFER_SPAN, work_bufs md BUFFER_BLOCK))
     (hoedown_markdown_render example_scanners example_block_tag 4 []
        (''> *a* [b](c)'' @ [CHR 0x0A])
        (the (hoedown_markdown_new {} 16 example_block_renderer ())))
   = Some (''<doc><blockquote><p><em>a</em> <a href=c>b</a></p></blockquote></doc>'', 0, 0)"
proof -
  let ?md = "the (hoedown_markdown_new {} 16 example_block_renderer ())"
  let ?run = "hoedown_markdown_render example_scanners example_block_tag 4 []
                (''> *a* [b](c)'' @ [CHR 0x0A]) ?md"
  have "map_option fst ?run
      = Some ''<doc><blockquote><p><em>a</em> <a href=c>b</a></p></blockquote></doc>''"
    by code_simp
  then obtain md'
    where run: "?run
      = Some (''<doc><blockquote><p><em>a</em> <a href=c>b</a></p></blockquote></doc>'', md')"
    by (cases ?run) auto
  have entry: "work_bufs ?md BUFFER_SPAN = 0" "work_bufs ?md BUFFER_BLOCK = 0"
    "unat (max_nesting ?md) + 8 < 2 ^ 31"
    by (simp_all add: hoedown_markdown_new_def)
  show ?thesis
    unfolding run using render_pools_empty [OF entry run] by simp
qed

end
